theory Spec2Isabelle
  imports Main "HOL-Library.Sublist"
begin

section \<open>Constants (const.py and the head of update\_queue.py)\<close>

definition DEFAULT_UPDATE_TIMEOUT :: int where
  "DEFAULT_UPDATE_TIMEOUT = 600"

definition DEFAULT_DELAY_BETWEEN :: int where
  "DEFAULT_DELAY_BETWEEN = 1"

definition MAX_UNAVAILABLE_DURATION :: int where
  "MAX_UNAVAILABLE_DURATION = 120"

text \<open>
  The six status strings of const.py. Only these constants are ever assigned to
  \<open>DeviceUpdateResult.status\<close>, so the field is a datatype and \<open>status_str\<close> gives the
  string that the results and the summary carry.
\<close>

datatype status = Queued | Running | Success | Failed | Skipped | Cancelled

fun status_str :: "status \<Rightarrow> string" where
  "status_str Queued = ''queued''"
| "status_str Running = ''running''"
| "status_str Success = ''success''"
| "status_str Failed = ''failed''"
| "status_str Skipped = ''skipped''"
| "status_str Cancelled = ''cancelled''"

text \<open>The em dash of the source's messages, as its three UTF-8 bytes.\<close>

definition em_dash :: string where
  "em_dash = [CHR 0xE2, CHR 0x80, CHR 0x94]"

section \<open>Data model\<close>

text \<open>
  \<open>DeviceUpdateResult\<close>. Timestamps are readings of the wall clock
  (\<open>datetime.now()\<close>), kept as numbers; \<open>None\<close> is Python's \<open>None\<close>.
\<close>

record job =
  entity_id :: string
  status :: status
  started_at :: "int option"
  finished_at :: "int option"
  error :: "string option"

definition new_job :: "string \<Rightarrow> job" where
  "new_job eid = \<lparr>entity_id = eid, status = Queued, started_at = None,
                   finished_at = None, error = None\<rparr>"

text \<open>
  The background task created by \<open>start\<close>, as far as \<open>cancel\<close> looks at it:
  pending, pending with a cancellation requested (\<open>Task.cancel()\<close> was called and the
  \<open>CancelledError\<close> is not delivered yet), or done.
\<close>

datatype task = TaskPending | TaskCancelling | TaskDone

text \<open>The fields of \<open>UpdateQueue\<close> (\<open>hass\<close> is the environment, modelled below).\<close>

record orch =
  queue :: "job list"
  running :: bool
  cancelled :: bool
  current_index :: nat
  task :: "task option"
  stop_addon_slug :: "string option"
  addon_was_running :: bool

definition init_orch :: orch where
  "init_orch = \<lparr>queue = [], running = False, cancelled = False, current_index = 0,
                 task = None, stop_addon_slug = None, addon_was_running = False\<rparr>"

section \<open>Reporting: results and summary\<close>

text \<open>
  One row of \<open>results\<close>: entity id, status string, start and finish time (the source
  renders a present timestamp with \<open>isoformat()\<close>; the row keeps the timestamp), error.
\<close>

type_synonym row = "string \<times> string \<times> int option \<times> int option \<times> string option"

definition row_of :: "job \<Rightarrow> row" where
  "row_of r = (entity_id r, status_str (status r), started_at r, finished_at r, error r)"

definition results :: "orch \<Rightarrow> row list" where
  "results s = map row_of (queue s)"

text \<open>
  \<open>counts[k] = counts.get(k, 0) + 1\<close> on a Python dict, which keeps insertion order:
  an association list in which an existing key is updated in place and a new key is
  appended.
\<close>

fun bump :: "(string \<times> nat) list \<Rightarrow> string \<Rightarrow> (string \<times> nat) list" where
  "bump [] k = [(k, 0 + 1)]"
| "bump ((k', c) # kvs) k = (if k' = k then (k', c + 1) # kvs else (k', c) # bump kvs k)"

definition summary :: "orch \<Rightarrow> (string \<times> nat) list" where
  "summary s = foldl (\<lambda>counts r. bump counts (status_str (status r))) [] (queue s)"

section \<open>Public entry points: start, cancel, clear\<close>

datatype exn = RuntimeError string

definition start :: "orch \<Rightarrow> string list \<Rightarrow> string option \<Rightarrow> (exn + unit) \<times> orch" where
  "start s entity_ids slug =
     (if running s then (Inl (RuntimeError ''Update queue is already running''), s)
      else (Inr (),
            s\<lparr>queue := map new_job entity_ids,
              running := True,
              cancelled := False,
              current_index := 0,
              stop_addon_slug := slug,
              addon_was_running := False,
              task := Some TaskPending\<rparr>))"

definition cancel :: "orch \<Rightarrow> orch" where
  "cancel s =
     (let s1 = s\<lparr>cancelled := True\<rparr>
      in case task s1 of
           None \<Rightarrow> s1
         | Some t \<Rightarrow> if t \<noteq> TaskDone then s1\<lparr>task := Some TaskCancelling\<rparr> else s1)"

definition clear :: "orch \<Rightarrow> (exn + unit) \<times> orch" where
  "clear s =
     (if running s then (Inl (RuntimeError ''Cannot clear while updates are running''), s)
      else (Inr (), s\<lparr>queue := []\<rparr>))"

section \<open>The environment\<close>

text \<open>
  The run is one cooperative task: between two suspension points (an \<open>await\<close>) it runs
  alone, and at a suspension point the rest of the world runs. A \<open>moment\<close> is what the
  task finds when it is resumed: the clocks, the state registry of the host, the outcome
  of the call it awaited, and what reached the task while it was suspended.

  \<^item> \<open>Quiet\<close>: nothing; the await completes.
  \<^item> \<open>CancelCall\<close>: \<open>cancel()\<close> was called; the await ends with \<open>CancelledError\<close>.
  \<^item> \<open>Teardown\<close>: the host cancelled the task itself; the flag is not touched.
  \<^item> \<open>FlagOnly\<close>: the flag was set and the await still completed (the request was
    absorbed below the task, the cooperative path of the source).
\<close>

datatype interrupt = Quiet | FlagOnly | CancelCall | Teardown

text \<open>
  A state object of the registry: its \<open>state\<close> string and the truth value of its
  \<open>in_progress\<close> attribute (\<open>attributes.get(ATTR_IN_PROGRESS, False)\<close>).
\<close>

record hstate =
  state :: string
  in_progress :: bool

text \<open>
  \<open>wall\<close> is \<open>datetime.now()\<close>, \<open>mono\<close> is the event loop's \<open>time()\<close>, in seconds;
  \<open>states\<close> is \<open>hass.states.get\<close>. The last three fields are the outcome of the
  awaited call, read by the call that awaited it: the message of the exception that the
  install service raised (if any), the \<open>state\<close> entry of a non-empty add-on info (if
  any), and the boolean that a stop or start request returned. Code that runs between
  two suspensions takes no time: every clock reading there is the one of the moment.
\<close>

record moment =
  wall :: int
  mono :: int
  states :: "string \<Rightarrow> hstate option"
  intr :: interrupt
  install_error :: "string option"
  info_state :: "string option"
  api_ok :: bool

text \<open>What the task asked of its collaborators, in order: the calls and the events.\<close>

datatype call =
    GetAddonInfo string
  | StopAddon string
  | StartAddon string
  | Install string
  | Progress "row list" "(string \<times> nat) list"
  | Finished "row list" "(string \<times> nat) list"

text \<open>
  \<open>now\<close> is the moment the task runs in, \<open>pending\<close> the moments still to come, one per
  suspension. When \<open>pending\<close> is empty the task stays suspended: the result is \<open>None\<close>.
\<close>

record env =
  now :: moment
  pending :: "moment list"
  calls :: "call list"

definition emit :: "call \<Rightarrow> env \<Rightarrow> env" where
  "emit c e = e\<lparr>calls := calls e @ [c]\<rparr>"

text \<open>How a routine ends: it returns a value, or \<open>asyncio.CancelledError\<close> leaves it.\<close>

datatype 'a res = Ret 'a | CancelledError

type_synonym 'a io = "('a res \<times> orch \<times> env) option"

definition deliver :: "interrupt \<Rightarrow> orch \<Rightarrow> bool \<times> orch" where
  "deliver i s =
     (case i of
        Quiet \<Rightarrow> (False, s)
      | FlagOnly \<Rightarrow> (False, s\<lparr>cancelled := True\<rparr>)
      | CancelCall \<Rightarrow>
          (let s' = cancel s
           in if task s' = Some TaskCancelling then (True, s'\<lparr>task := Some TaskPending\<rparr>)
              else (False, s'))
      | Teardown \<Rightarrow> (True, s))"

definition suspend :: "orch \<Rightarrow> env \<Rightarrow> unit io" where
  "suspend s e =
     (case pending e of
        [] \<Rightarrow> None
      | m # ms \<Rightarrow>
          (case deliver (intr m) s of
             (thrown, s') \<Rightarrow>
               Some (if thrown then CancelledError else Ret (), s',
                     e\<lparr>now := m, pending := ms\<rparr>)))"

text \<open>
  \<open>asyncio.sleep(d)\<close>. The clock after the sleep is the one of the next moment, which
  the environment chooses; \<open>d\<close> is the duration the source asks for.
\<close>

definition sleep :: "nat \<Rightarrow> orch \<Rightarrow> env \<Rightarrow> unit io" where
  "sleep d s e = suspend s e"

definition and_then :: "'a io \<Rightarrow> ('a \<Rightarrow> orch \<Rightarrow> env \<Rightarrow> 'b io) \<Rightarrow> 'b io" where
  "and_then m f =
     (case m of
        None \<Rightarrow> None
      | Some (CancelledError, s, e) \<Rightarrow> Some (CancelledError, s, e)
      | Some (Ret x, s, e) \<Rightarrow> f x s e)"

section \<open>Add-on coordinator\<close>

definition stop_addon :: "orch \<Rightarrow> env \<Rightarrow> unit io" where
  "stop_addon s e =
     (case stop_addon_slug s of
        None \<Rightarrow> Some (Ret (), s, e)
      | Some slug \<Rightarrow>
          if slug = [] then Some (Ret (), s, e)
          else
            and_then (suspend s (emit (GetAddonInfo slug) e)) (\<lambda>_ s1 e1.
              if info_state (now e1) = Some ''started'' then
                and_then (suspend (s1\<lparr>addon_was_running := True\<rparr>) (emit (StopAddon slug) e1))
                  (\<lambda>_ s2 e2.
                     if api_ok (now e2) then sleep 5 s2 e2
                     else Some (Ret (), s2\<lparr>addon_was_running := False\<rparr>, e2))
              else Some (Ret (), s1, e1)))"

definition restart_addon :: "orch \<Rightarrow> env \<Rightarrow> unit io" where
  "restart_addon s e =
     (case stop_addon_slug s of
        None \<Rightarrow> Some (Ret (), s, e)
      | Some slug \<Rightarrow>
          if slug = [] \<or> \<not> addon_was_running s then Some (Ret (), s, e)
          else
            and_then (suspend s (emit (GetAddonInfo slug) e)) (\<lambda>_ s1 e1.
              suspend s1 (emit (StartAddon slug) e1)))"

section \<open>Completion waiter\<close>

text \<open>
  One pass through the body of the \<open>while\<close> loop of \<open>_wait_for_completion\<close>, up to
  the sleep that ends it: either the loop returns \<open>(success, error_reason)\<close>, or it
  goes on with new values of \<open>unavailable_since\<close> and \<open>saw_in_progress\<close> after a sleep
  of the given number of seconds. \<open>t\<close> is the reading of \<open>time()\<close>.
\<close>

datatype tick = Return bool "string option" | Continue "int option" bool nat

definition poll :: "bool \<Rightarrow> hstate option \<Rightarrow> int \<Rightarrow> int option \<Rightarrow> bool \<Rightarrow> tick" where
  "poll cancelled_flag st t unavailable_since saw_in_progress =
     (if cancelled_flag then Return False (Some ''Cancelled by user'')
      else case st of
        None \<Rightarrow>
          (case unavailable_since of
             None \<Rightarrow> Continue (Some t) saw_in_progress 10
           | Some t0 \<Rightarrow>
               if t - t0 > MAX_UNAVAILABLE_DURATION
               then Return False (Some ''Device disappeared and did not come back'')
               else Continue (Some t0) saw_in_progress 10)
      | Some h \<Rightarrow>
          if state h = ''unavailable'' then
            (case unavailable_since of
               None \<Rightarrow> Continue (Some t) saw_in_progress 10
             | Some t0 \<Rightarrow>
                 if t - t0 > MAX_UNAVAILABLE_DURATION then
                   (if saw_in_progress
                    then Return False
                           (Some ''Device went offline during update and did not recover'')
                    else Return False (Some ''Device became unavailable''))
                 else Continue (Some t0) saw_in_progress 10)
          else
            (let saw = (if in_progress h then True else saw_in_progress)
             in if \<not> in_progress h \<and> state h = ''off'' then Return True None
                else if \<not> in_progress h \<and> state h = ''on'' then Continue None saw 10
                else Continue None saw 5))"

lemma suspend_shrinks:
  "suspend s e = Some (r, s', e') \<Longrightarrow> length (pending e') < length (pending e)"
  by (auto simp: suspend_def split: list.splits prod.splits)

function wait_loop ::
  "string \<Rightarrow> int \<Rightarrow> int option \<Rightarrow> bool \<Rightarrow> orch \<Rightarrow> env \<Rightarrow> (bool \<times> string option) io" where
  "wait_loop eid end_time unavailable_since saw s e =
     (if mono (now e) < end_time then
        (case poll (cancelled s) (states (now e) eid) (mono (now e)) unavailable_since saw of
           Return ok reason \<Rightarrow> Some (Ret (ok, reason), s, e)
         | Continue us' saw' d \<Rightarrow>
             (case sleep d s e of
                None \<Rightarrow> None
              | Some (CancelledError, s', e') \<Rightarrow> Some (CancelledError, s', e')
              | Some (Ret u, s', e') \<Rightarrow> wait_loop eid end_time us' saw' s' e'))
      else if saw then
        Some (Ret (False,
                Some (''Update timed out '' @ em_dash @ '' device may still be updating'')),
              s, e)
      else
        Some (Ret (False,
                Some (''Update timed out '' @ em_dash @ '' no progress detected'')),
              s, e))"
  by pat_completeness auto
termination
  by (relation "measure (\<lambda>(eid, end_time, us, saw, s, e). length (pending e))")
     (auto simp: sleep_def dest: suspend_shrinks)

declare wait_loop.simps [simp del]

definition wait_for_completion :: "string \<Rightarrow> orch \<Rightarrow> env \<Rightarrow> (bool \<times> string option) io" where
  "wait_for_completion eid s e =
     (let end_time = mono (now e) + DEFAULT_UPDATE_TIMEOUT
      in and_then (sleep 5 s e) (\<lambda>_ s' e'. wait_loop eid end_time None False s' e'))"

section \<open>Job state machine\<close>

definition is_entity_available :: "moment \<Rightarrow> string \<Rightarrow> bool" where
  "is_entity_available m eid =
     (case states m eid of
        None \<Rightarrow> False
      | Some h \<Rightarrow> state h \<noteq> ''unavailable'' \<and> state h \<noteq> ''unknown'')"

text \<open>\<open>item\<close> is the object at position \<open>i\<close> of the queue; assigning to its fields
  changes the queue in place.\<close>

definition set_job :: "nat \<Rightarrow> (job \<Rightarrow> job) \<Rightarrow> orch \<Rightarrow> orch" where
  "set_job i f s = s\<lparr>queue := (queue s)[i := f (queue s ! i)]\<rparr>"

text \<open>The \<open>finally\<close> clause: \<open>item.finished_at = item.finished_at or datetime.now()\<close>.\<close>

definition stamp_finish :: "int \<Rightarrow> job \<Rightarrow> job" where
  "stamp_finish t j =
     j\<lparr>finished_at := (case finished_at j of None \<Rightarrow> Some t | Some x \<Rightarrow> Some x)\<rparr>"

text \<open>The \<open>except asyncio.CancelledError\<close> clause, followed by the \<open>finally\<close> clause.\<close>

definition mark_cancelled :: "int \<Rightarrow> job \<Rightarrow> job" where
  "mark_cancelled t j = stamp_finish t (j\<lparr>status := Cancelled, error := Some ''Cancelled by user''\<rparr>)"

definition install_failed :: "string \<Rightarrow> string" where
  "install_failed error_msg =
     (if sublist ''Error compiling'' error_msg
      then ''Compile failed '' @ em_dash @ '' '' @ error_msg
      else ''Install failed '' @ em_dash @ '' '' @ error_msg)"

text \<open>
  \<open>_update_single\<close>. No operation of the model raises an exception other than the two
  the source names (the install call's, and \<open>CancelledError\<close> at a suspension), so the
  clause \<open>except Exception\<close> at the end has no branch here.
\<close>

definition update_single :: "nat \<Rightarrow> orch \<Rightarrow> env \<Rightarrow> unit io" where
  "update_single i s e =
     (let eid = entity_id (queue s ! i);
          s1 = set_job i (\<lambda>j. j\<lparr>status := Running, started_at := Some (wall (now e))\<rparr>) s
      in
      if \<not> is_entity_available (now e) eid then
        Some (Ret (),
              set_job i (\<lambda>j. stamp_finish (wall (now e))
                (j\<lparr>status := Skipped,
                   error := Some (''Device unavailable '' @ em_dash @ '' skipped''),
                   finished_at := Some (wall (now e))\<rparr>)) s1,
              e)
      else
        (case suspend s1 (emit (Install eid) e) of
           None \<Rightarrow> None
         | Some (CancelledError, s2, e2) \<Rightarrow>
             Some (CancelledError, set_job i (mark_cancelled (wall (now e2))) s2, e2)
         | Some (Ret u, s2, e2) \<Rightarrow>
             (case install_error (now e2) of
                Some error_msg \<Rightarrow>
                  Some (Ret (),
                        set_job i (\<lambda>j. stamp_finish (wall (now e2))
                          (j\<lparr>status := Failed,
                             error := Some (install_failed error_msg),
                             finished_at := Some (wall (now e2))\<rparr>)) s2,
                        e2)
              | None \<Rightarrow>
                  if (case states (now e2) eid of None \<Rightarrow> False | Some h \<Rightarrow> state h = ''off'')
                  then
                    Some (Ret (),
                          set_job i (\<lambda>j. stamp_finish (wall (now e2)) (j\<lparr>status := Success\<rparr>)) s2,
                          e2)
                  else
                    (case wait_for_completion eid s2 e2 of
                       None \<Rightarrow> None
                     | Some (CancelledError, s3, e3) \<Rightarrow>
                         Some (CancelledError, set_job i (mark_cancelled (wall (now e3))) s3, e3)
                     | Some (Ret (success, error_reason), s3, e3) \<Rightarrow>
                         Some (Ret (),
                               set_job i (\<lambda>j. stamp_finish (wall (now e3))
                                 (if cancelled s3 then
                                    j\<lparr>status := Cancelled, error := Some ''Cancelled by user''\<rparr>
                                  else if success then j\<lparr>status := Success\<rparr>
                                  else
                                    j\<lparr>status := Failed,
                                      error := Some (case error_reason of
                                                       None \<Rightarrow> ''Update failed''
                                                     | Some r \<Rightarrow> if r = [] then ''Update failed'' else r)\<rparr>))
                                 s3,
                               e3)))))"

section \<open>The run\<close>

text \<open>
  The \<open>for\<close> loop of \<open>_run\<close> over the positions of the queue. The pause between two
  jobs, \<open>wait_for(self._wait_for_cancel(), timeout=DEFAULT_DELAY_BETWEEN)\<close>, is one
  suspension: it ends by the inner loop's return or by the timeout, which the source
  treats alike, or \<open>CancelledError\<close> leaves it.
\<close>

fun run_jobs :: "nat list \<Rightarrow> orch \<Rightarrow> env \<Rightarrow> unit io" where
  "run_jobs [] s e = Some (Ret (), s, e)"
| "run_jobs (i # rest) s e =
     (let s0 = s\<lparr>current_index := i\<rparr>
      in if cancelled s0 then run_jobs rest (set_job i (\<lambda>j. j\<lparr>status := Cancelled\<rparr>) s0) e
         else
           (case update_single i s0 e of
              None \<Rightarrow> None
            | Some (CancelledError, s1, e1) \<Rightarrow> Some (CancelledError, s1, e1)
            | Some (Ret u, s1, e1) \<Rightarrow>
                (let e2 = emit (Progress (results s1) (summary s1)) e1
                 in if i < length (queue s1) - 1 \<and> \<not> cancelled s1 then
                      (case suspend s1 e2 of
                         None \<Rightarrow> None
                       | Some (CancelledError, s3, e3) \<Rightarrow> Some (CancelledError, s3, e3)
                       | Some (Ret v, s3, e3) \<Rightarrow> run_jobs rest s3 e3)
                    else run_jobs rest s1 e2)))"

text \<open>The \<open>except asyncio.CancelledError\<close> clause of \<open>_run\<close>, for one item.\<close>

definition on_cancelled :: "int \<Rightarrow> job \<Rightarrow> job" where
  "on_cancelled t j =
     (if status j = Queued then j\<lparr>status := Cancelled\<rparr>
      else if status j = Running then
        j\<lparr>status := Cancelled, error := Some ''Cancelled by user'', finished_at := Some t\<rparr>
      else j)"

text \<open>The \<open>try\<close> block of \<open>_run\<close>.\<close>

definition run_body :: "orch \<Rightarrow> env \<Rightarrow> unit io" where
  "run_body s e =
     and_then (stop_addon s e) (\<lambda>_ s1 e1. run_jobs [0..<length (queue s1)] s1 e1)"

text \<open>
  \<open>_run\<close>: the \<open>try\<close> block, the handler when \<open>CancelledError\<close> left it, and the
  \<open>finally\<close> clause. \<open>except Exception\<close> around the restart does not catch
  \<open>CancelledError\<close> (a \<open>BaseException\<close>): one delivered while the restart is awaited
  leaves the \<open>finally\<close> clause, and the task, at once.
\<close>

definition run :: "orch \<Rightarrow> env \<Rightarrow> unit io" where
  "run s e =
     (case run_body s e of
        None \<Rightarrow> None
      | Some (r, s1, e1) \<Rightarrow>
          (let s2 = (case r of
                       CancelledError \<Rightarrow> s1\<lparr>queue := map (on_cancelled (wall (now e1))) (queue s1)\<rparr>
                     | Ret u \<Rightarrow> s1)
           in case restart_addon s2 e1 of
                None \<Rightarrow> None
              | Some (CancelledError, s3, e3) \<Rightarrow> Some (CancelledError, s3\<lparr>task := Some TaskDone\<rparr>, e3)
              | Some (Ret u, s3, e3) \<Rightarrow>
                  (let s4 = s3\<lparr>running := False\<rparr>
                   in Some (Ret (), s4\<lparr>task := Some TaskDone\<rparr>,
                            emit (Finished (results s4) (summary s4)) e3))))"

section \<open>Concrete scenarios\<close>

text \<open>A moment at time \<open>t\<close> with the given registry in which nothing reached the task,
  the awaited call did not fail and the add-on info carries no state.\<close>

definition calm :: "int \<Rightarrow> (string \<Rightarrow> hstate option) \<Rightarrow> moment" where
  "calm t reg = \<lparr>wall = t, mono = t, states = reg, intr = Quiet, install_error = None,
                 info_state = None, api_ok = True\<rparr>"

definition reading :: "string \<Rightarrow> bool \<Rightarrow> hstate" where
  "reading st p = \<lparr>state = st, in_progress = p\<rparr>"

definition nothing_registered :: "string \<Rightarrow> hstate option" where
  "nothing_registered = (\<lambda>eid. None)"

definition registered :: "string \<Rightarrow> hstate \<Rightarrow> string \<Rightarrow> hstate option" where
  "registered eid h = (\<lambda>x. if x = eid then Some h else None)"

definition one_job :: orch where
  "one_job = snd (start init_orch [''update.a''] None)"

definition first_look :: "(string \<Rightarrow> hstate option) \<Rightarrow> env" where
  "first_look reg = \<lparr>now = calm 0 reg, pending = [], calls = []\<rparr>"

text \<open>
  What one reading of the registry says about the target \<open>eid\<close>, in the waiter's terms:
  \<open>lost\<close> is the source's \<open>state is None\<close> or \<open>state.state == "unavailable"\<close>;
  \<open>progressing\<close> is a reading that sets \<open>saw_in_progress\<close>; \<open>settled\<close> is the reading
  on which the waiter returns success (available, not in progress, state \<open>off\<close>).
  \<open>brief_outages\<close> says of a sequence of polls that every run of consecutive polls which
  all find the target lost spans at most \<open>MAX_UNAVAILABLE_DURATION\<close> seconds from its
  first poll to its last.
  \<open>lost_reason\<close> collects the three messages of the two branches for a lost target.
  \<open>replay\<close> takes the loop variables \<open>unavailable_since\<close> and \<open>saw_in_progress\<close>
  through the polls at the given moments, with the cancellation flag down; it is
  \<open>None\<close> when one of these polls returns.
\<close>

definition lost :: "moment \<Rightarrow> string \<Rightarrow> bool" where
  "lost m eid = (case states m eid of None \<Rightarrow> True | Some h \<Rightarrow> state h = ''unavailable'')"

definition progressing :: "moment \<Rightarrow> string \<Rightarrow> bool" where
  "progressing m eid =
     (case states m eid of None \<Rightarrow> False | Some h \<Rightarrow> state h \<noteq> ''unavailable'' \<and> in_progress h)"

definition settled :: "moment \<Rightarrow> string \<Rightarrow> bool" where
  "settled m eid =
     (case states m eid of
        None \<Rightarrow> False
      | Some h \<Rightarrow> state h \<noteq> ''unavailable'' \<and> \<not> in_progress h \<and> state h = ''off'')"

definition brief_outages :: "string \<Rightarrow> moment list \<Rightarrow> bool" where
  "brief_outages eid ms =
     (\<forall>ys \<in> set (sublists ms).
        ys \<noteq> [] \<and> (\<forall>x \<in> set ys. lost x eid)
        \<longrightarrow> mono (last ys) - mono (hd ys) \<le> MAX_UNAVAILABLE_DURATION)"

definition lost_reason :: "moment \<Rightarrow> string \<Rightarrow> bool \<Rightarrow> string" where
  "lost_reason m eid saw =
     (case states m eid of
        None \<Rightarrow> ''Device disappeared and did not come back''
      | Some h \<Rightarrow> if saw then ''Device went offline during update and did not recover''
                  else ''Device became unavailable'')"

fun replay :: "string \<Rightarrow> int option \<Rightarrow> bool \<Rightarrow> moment list \<Rightarrow> (int option \<times> bool) option" where
  "replay eid us saw [] = Some (us, saw)"
| "replay eid us saw (m # ms) =
     (case poll False (states m eid) (mono m) us saw of
        Return ok reason \<Rightarrow> None
      | Continue us' saw' d \<Rightarrow> replay eid us' saw' ms)"

text \<open>
  A waiter that first reads \<open>in_progress\<close> at 5 s and then, from 10 s to 140 s and every
  10 s, the registry \<open>reg\<close>.
\<close>

definition polls_10_to_140 :: "(string \<Rightarrow> hstate option) \<Rightarrow> moment list" where
  "polls_10_to_140 reg =
     map (\<lambda>t. calm t reg) [10, 20, 30, 40, 50, 60, 70, 80, 90, 100, 110, 120, 130, 140]"

definition lost_after_progress :: "(string \<Rightarrow> hstate option) \<Rightarrow> env" where
  "lost_after_progress reg =
     \<lparr>now = calm 0 (registered ''update.a'' (reading ''on'' False)),
      pending = calm 5 (registered ''update.a'' (reading ''on'' True)) # polls_10_to_140 reg,
      calls = []\<rparr>"

text \<open>
  Helpers for the statements about the run: which calls go to the add-on control port;
  a job that never started and carries nothing but its status; and what one stretch of
  the run may do to the orchestrator and the log (the queue keeps its length and its
  entity ids, jobs that never started stay clean, the log only grows and gets no add-on
  call, and the run flag and the add-on memory stay as they are).
\<close>

fun is_addon_call :: "call \<Rightarrow> bool" where
  "is_addon_call (GetAddonInfo slug) = True"
| "is_addon_call (StopAddon slug) = True"
| "is_addon_call (StartAddon slug) = True"
| "is_addon_call c = False"

definition unstarted_clean :: "job \<Rightarrow> bool" where
  "unstarted_clean j =
     (if started_at j = None
      then finished_at j = None \<and> error j = None \<and> (status j = Queued \<or> status j = Cancelled)
      else True)"

definition advances :: "orch \<Rightarrow> env \<Rightarrow> orch \<Rightarrow> env \<Rightarrow> bool" where
  "advances s e s' e' =
     (length (queue s') = length (queue s)
      \<and> map entity_id (queue s') = map entity_id (queue s)
      \<and> (list_all unstarted_clean (queue s) \<longrightarrow> list_all unstarted_clean (queue s'))
      \<and> (\<exists>more. calls e' = calls e @ more \<and> list_all (\<lambda>c. \<not> is_addon_call c) more)
      \<and> running s' = running s \<and> stop_addon_slug s' = stop_addon_slug s
      \<and> addon_was_running s' = addon_was_running s)"

text \<open>Reading off the result of a routine: how it ended, the queue and the log.\<close>

definition outcome :: "'a io \<Rightarrow> 'a res option" where
  "outcome x = (case x of None \<Rightarrow> None | Some (r, s, e) \<Rightarrow> Some r)"

definition final_queue :: "'a io \<Rightarrow> job list" where
  "final_queue x = (case x of None \<Rightarrow> [] | Some (r, s, e) \<Rightarrow> queue s)"

definition final_calls :: "'a io \<Rightarrow> call list" where
  "final_calls x = (case x of None \<Rightarrow> [] | Some (r, s, e) \<Rightarrow> calls e)"

definition three_jobs :: orch where
  "three_jobs = snd (start init_orch [''update.a'', ''update.b'', ''update.c''] None)"

definition cancel_in_pause :: "interrupt \<Rightarrow> env" where
  "cancel_in_pause i =
     \<lparr>now = calm 0 nothing_registered,
      pending = [(calm 1 nothing_registered)\<lparr>intr := i\<rparr>],
      calls = []\<rparr>"

definition skipped_row :: row where
  "skipped_row = (''update.a'', ''skipped'', Some 0, Some 0,
                  Some (''Device unavailable '' @ em_dash @ '' skipped''))"

text \<open>
  The orchestrator a routine leaves behind; an environment whose next \<open>n\<close> suspensions
  all complete with nothing reaching the task; and the scenarios with an add-on: one job
  that installs and is settled at 60 s, with the interrupt \<open>i\<close> arriving while the
  \<open>finally\<close> clause awaits the add-on info, and (\<open>cleanup_interrupted\<close>) the same
  arrival for an empty batch around a running add-on.
\<close>

definition final_orch :: "'a io \<Rightarrow> orch option" where
  "final_orch x = (case x of None \<Rightarrow> None | Some (r, s, e) \<Rightarrow> Some s)"

definition undisturbed :: "nat \<Rightarrow> env \<Rightarrow> bool" where
  "undisturbed n e =
     (n \<le> length (pending e) \<and> list_all (\<lambda>m. intr m = Quiet) (take n (pending e)))"

definition with_addon :: orch where
  "with_addon = snd (start init_orch [''update.a''] (Some ''a0d7b954_vscode''))"

definition restart_interrupted :: "interrupt \<Rightarrow> env" where
  "restart_interrupted i =
     \<lparr>now = calm 0 (registered ''update.a'' (reading ''on'' False)),
      pending =
        [(calm 1 (registered ''update.a'' (reading ''on'' False)))\<lparr>info_state := Some ''started''\<rparr>,
         calm 2 (registered ''update.a'' (reading ''on'' False)),
         calm 7 (registered ''update.a'' (reading ''on'' False)),
         calm 60 (registered ''update.a'' (reading ''off'' False)),
         (calm 61 (registered ''update.a'' (reading ''off'' False)))\<lparr>intr := i\<rparr>,
         calm 62 (registered ''update.a'' (reading ''off'' False))],
      calls = []\<rparr>"

definition cleanup_interrupted :: "interrupt \<Rightarrow> env" where
  "cleanup_interrupted i =
     \<lparr>now = calm 0 nothing_registered,
      pending = [(calm 1 nothing_registered)\<lparr>info_state := Some ''started''\<rparr>,
                 calm 2 nothing_registered, calm 7 nothing_registered,
                 (calm 8 nothing_registered)\<lparr>intr := i\<rparr>, calm 9 nothing_registered],
      calls = []\<rparr>"

text \<open>An arrival that lets the awaited call complete: nothing, or the flag alone.\<close>

definition calm_arrival :: "moment \<Rightarrow> bool" where
  "calm_arrival m = (intr m = Quiet \<or> intr m = FlagOnly)"

section \<open>The summary counts\<close>

lemma sum_bump: "sum_list (map snd (bump kvs k)) = Suc (sum_list (map snd kvs))"
  by (induction kvs k rule: bump.induct) auto

lemma sum_foldl_bump:
  "sum_list (map snd (foldl (\<lambda>counts r. bump counts (f r)) acc rs))
     = sum_list (map snd acc) + length rs"
  by (induction rs arbitrary: acc) (auto simp: sum_bump)

text \<open>
  C7. In every orchestrator state, hence in every snapshot that \<open>status()\<close> returns,
  during a run or after it, the counts of the summary add up to the length of the
  results list.
\<close>

theorem summary_counts_sum_to_length:
  "sum_list (map snd (summary s)) = length (results s)"
  by (simp add: summary_def results_def sum_foldl_bump)

section \<open>Entry points\<close>

text \<open>
  C1. In every orchestrator state \<open>cancel()\<close> sets the cancellation flag and changes no
  job: the queue, and with it every status, timestamp and error text, is the same
  afterwards, and so are the results, the summary, the run flag and the add-on memory.
  Besides the flag the call only asks a live task to stop; a job that is Running stays
  Running until the task itself is resumed. Calling it twice is the same as calling it
  once.
\<close>

theorem cancel_only_sets_flag:
  "cancel s = s\<lparr>cancelled := True,
               task := (case task s of
                          None \<Rightarrow> None
                        | Some t \<Rightarrow> Some (if t = TaskDone then TaskDone else TaskCancelling))\<rparr>
   \<and> queue (cancel s) = queue s \<and> results (cancel s) = results s \<and> summary (cancel s) = summary s
   \<and> cancelled (cancel s)
   \<and> running (cancel s) = running s \<and> current_index (cancel s) = current_index s
   \<and> stop_addon_slug (cancel s) = stop_addon_slug s
   \<and> addon_was_running (cancel s) = addon_was_running s
   \<and> cancel (cancel s) = cancel s"
  by (cases "task s") (auto simp: cancel_def results_def summary_def Let_def)

text \<open>
  C6. While a run is in progress \<open>start\<close> raises the already-running error and the
  orchestrator state is the one before the call: job sequence, statuses, cancellation
  flag and add-on memory.
\<close>

theorem start_while_running_rejected:
  "running s \<Longrightarrow>
     start s entity_ids slug = (Inl (RuntimeError ''Update queue is already running''), s)"
  by (simp add: start_def)

theorem start_while_running_rejected_witness:
  "running one_job \<and>
   start one_job [''update.b''] (Some ''a0d7b954_vscode'')
     = (Inl (RuntimeError ''Update queue is already running''), one_job)"
  using start_while_running_rejected [of one_job "[''update.b'']" "Some ''a0d7b954_vscode''"]
  by (simp add: one_job_def start_def init_orch_def)

section \<open>Unreachable targets\<close>

lemma skip_when_unavailable:
  assumes "i < length (queue s)" and "\<not> is_entity_available (now e) (entity_id (queue s ! i))"
  shows "\<exists>s'. update_single i s e = Some (Ret (), s', e)
           \<and> length (queue s') = length (queue s)
           \<and> status (queue s' ! i) = Skipped
           \<and> error (queue s' ! i) = Some (''Device unavailable '' @ em_dash @ '' skipped'')
           \<and> started_at (queue s' ! i) = Some (wall (now e))
           \<and> finished_at (queue s' ! i) = Some (wall (now e))"
  using assms by (simp add: update_single_def set_job_def stamp_finish_def Let_def)

text \<open>
  C5. When the first look at the registry finds the target's state record missing or
  its state \<open>unavailable\<close>, the job state machine returns at once: the job is Skipped
  with the device-unavailable reason and a finish timestamp, and the environment is the
  one before the call, so nothing was awaited and the install service was not called.
\<close>

theorem unreachable_target_is_skipped:
  assumes "i < length (queue s)"
      and "states (now e) (entity_id (queue s ! i)) = None
           \<or> (\<exists>h. states (now e) (entity_id (queue s ! i)) = Some h \<and> state h = ''unavailable'')"
  shows "\<exists>s'. update_single i s e = Some (Ret (), s', e)
           \<and> length (queue s') = length (queue s)
           \<and> status (queue s' ! i) = Skipped
           \<and> error (queue s' ! i) = Some (''Device unavailable '' @ em_dash @ '' skipped'')
           \<and> started_at (queue s' ! i) = Some (wall (now e))
           \<and> finished_at (queue s' ! i) = Some (wall (now e))"
proof -
  from assms(2) have "\<not> is_entity_available (now e) (entity_id (queue s ! i))"
    by (auto simp: is_entity_available_def)
  with assms(1) show ?thesis by (rule skip_when_unavailable)
qed

theorem unreachable_target_is_skipped_witness:
  "0 < length (queue one_job)
   \<and> states (now (first_look nothing_registered)) (entity_id (queue one_job ! 0)) = None
   \<and> (\<exists>s'. update_single 0 one_job (first_look nothing_registered)
              = Some (Ret (), s', first_look nothing_registered)
            \<and> status (queue s' ! 0) = Skipped
            \<and> finished_at (queue s' ! 0) = Some 0)"
proof -
  let ?e = "first_look nothing_registered"
  have a: "0 < length (queue one_job)"
    by (simp add: one_job_def start_def init_orch_def)
  have b: "states (now ?e) (entity_id (queue one_job ! 0)) = None"
    by (simp add: first_look_def calm_def nothing_registered_def)
  from unreachable_target_is_skipped [of 0 one_job ?e] a b
  show ?thesis by (auto simp: first_look_def calm_def)
qed

text \<open>
  C8. A target whose state is \<open>unknown\<close> counts as not available, so its job is
  Skipped in the same way and the install service is not called.
\<close>

theorem unknown_target_is_skipped:
  assumes "i < length (queue s)"
      and "states (now e) (entity_id (queue s ! i)) = Some h" and "state h = ''unknown''"
  shows "\<not> is_entity_available (now e) (entity_id (queue s ! i))
         \<and> (\<exists>s'. update_single i s e = Some (Ret (), s', e)
               \<and> status (queue s' ! i) = Skipped
               \<and> error (queue s' ! i) = Some (''Device unavailable '' @ em_dash @ '' skipped'')
               \<and> finished_at (queue s' ! i) = Some (wall (now e)))"
proof -
  from assms(2,3) have *: "\<not> is_entity_available (now e) (entity_id (queue s ! i))"
    by (simp add: is_entity_available_def)
  from skip_when_unavailable [OF assms(1) *] * show ?thesis by blast
qed

theorem unknown_target_is_skipped_witness:
  "0 < length (queue one_job)
   \<and> states (now (first_look (registered ''update.a'' (reading ''unknown'' False))))
        (entity_id (queue one_job ! 0)) = Some (reading ''unknown'' False)
   \<and> state (reading ''unknown'' False) = ''unknown''
   \<and> (\<exists>s'. update_single 0 one_job (first_look (registered ''update.a'' (reading ''unknown'' False)))
              = Some (Ret (), s', first_look (registered ''update.a'' (reading ''unknown'' False)))
            \<and> status (queue s' ! 0) = Skipped)"
proof -
  let ?e = "first_look (registered ''update.a'' (reading ''unknown'' False))"
  have a: "0 < length (queue one_job)"
    by (simp add: one_job_def start_def init_orch_def)
  have b: "states (now ?e) (entity_id (queue one_job ! 0)) = Some (reading ''unknown'' False)"
    by (simp add: first_look_def calm_def registered_def one_job_def start_def init_orch_def
                  new_job_def)
  have c: "state (reading ''unknown'' False) = ''unknown''"
    by (simp add: reading_def)
  from unknown_target_is_skipped [OF a b c] a b c
  show ?thesis by auto
qed

section \<open>The completion waiter and a lost target\<close>

lemma suspend_quiet:
  "pending e = m # ms \<Longrightarrow> intr m = Quiet \<Longrightarrow>
     suspend s e = Some (Ret (), s, e\<lparr>now := m, pending := ms\<rparr>)"
  by (simp add: suspend_def deliver_def)

lemma poll_lost_continue:
  assumes "lost m eid"
      and "case us of None \<Rightarrow> True | Some t0 \<Rightarrow> mono m - t0 \<le> MAX_UNAVAILABLE_DURATION"
  shows "poll False (states m eid) (mono m) us saw
           = Continue (Some (case us of None \<Rightarrow> mono m | Some t0 \<Rightarrow> t0)) saw 10"
  using assms by (auto simp: poll_def lost_def split: option.splits)

lemma poll_lost_return:
  assumes "lost m eid" and "mono m - t0 > MAX_UNAVAILABLE_DURATION"
  shows "poll False (states m eid) (mono m) (Some t0) saw
           = Return False (Some (lost_reason m eid saw))"
  using assms by (auto simp: poll_def lost_def lost_reason_def split: option.splits)

lemma poll_saw:
  "poll False (states m eid) (mono m) us saw = Continue us' saw' d \<Longrightarrow>
     saw' = (saw \<or> progressing m eid)"
  by (auto simp: poll_def progressing_def Let_def split: option.splits if_splits)

lemma replay_saw:
  "replay eid us saw ms = Some (us', saw') \<Longrightarrow>
     saw' = (saw \<or> (\<exists>x \<in> set ms. progressing x eid))"
proof (induction ms arbitrary: us saw)
  case Nil
  then show ?case by simp
next
  case (Cons m ms)
  then obtain u1 s1 d where
      p: "poll False (states m eid) (mono m) us saw = Continue u1 s1 d"
    and r: "replay eid u1 s1 ms = Some (us', saw')"
    by (auto split: tick.splits)
  from poll_saw [OF p] Cons.IH [OF r] show ?case by auto
qed

lemma wait_loop_lost:
  assumes "pending e = ms @ m # rest"
      and "\<forall>x \<in> set (now e # ms @ [m]). lost x eid \<and> mono x < T"
      and "\<forall>x \<in> set (ms @ [m]). intr x = Quiet"
      and "\<not> cancelled s"
      and "t0 = (case us of None \<Rightarrow> mono (now e) | Some t \<Rightarrow> t)"
      and "\<forall>x \<in> set (now e # ms). mono x - t0 \<le> MAX_UNAVAILABLE_DURATION"
      and "mono m - t0 > MAX_UNAVAILABLE_DURATION"
  shows "wait_loop eid T us saw s e
           = Some (Ret (False, Some (lost_reason m eid saw)), s, e\<lparr>now := m, pending := rest\<rparr>)"
  using assms
proof (induction ms arbitrary: e us)
  case Nil
  let ?e' = "e\<lparr>now := m, pending := rest\<rparr>"
  have c: "poll False (states (now e) eid) (mono (now e)) us saw = Continue (Some t0) saw 10"
    using poll_lost_continue [of "now e" eid us saw] Nil.prems
    by (auto split: option.splits)
  have s: "suspend s e = Some (Ret (), s, ?e')"
    using Nil.prems by (intro suspend_quiet) auto
  have r: "poll False (states m eid) (mono m) (Some t0) saw
             = Return False (Some (lost_reason m eid saw))"
    using Nil.prems by (intro poll_lost_return) auto
  have "wait_loop eid T us saw s e = wait_loop eid T (Some t0) saw s ?e'"
    using Nil.prems c s by (subst wait_loop.simps) (simp add: sleep_def)
  also have "\<dots> = Some (Ret (False, Some (lost_reason m eid saw)), s, ?e')"
    using Nil.prems r by (subst wait_loop.simps) simp
  finally show ?case .
next
  case (Cons a ms)
  let ?e' = "e\<lparr>now := a, pending := ms @ m # rest\<rparr>"
  have c: "poll False (states (now e) eid) (mono (now e)) us saw = Continue (Some t0) saw 10"
    using poll_lost_continue [of "now e" eid us saw] Cons.prems
    by (auto split: option.splits)
  have s: "suspend s e = Some (Ret (), s, ?e')"
    using Cons.prems by (intro suspend_quiet) auto
  have step: "wait_loop eid T us saw s e = wait_loop eid T (Some t0) saw s ?e'"
    using Cons.prems c s by (subst wait_loop.simps) (simp add: sleep_def)
  have "wait_loop eid T (Some t0) saw s ?e'
          = Some (Ret (False, Some (lost_reason m eid saw)), s, ?e'\<lparr>now := m, pending := rest\<rparr>)"
    using Cons.prems by (intro Cons.IH) auto
  with step show ?case by simp
qed

lemma wait_loop_replay:
  assumes "pending e = pre @ nxt # rest"
      and "replay eid us saw (now e # pre) = Some (us', saw')"
      and "\<forall>x \<in> set (now e # pre). mono x < T"
      and "\<forall>x \<in> set (pre @ [nxt]). intr x = Quiet"
      and "\<not> cancelled s"
  shows "wait_loop eid T us saw s e
           = wait_loop eid T us' saw' s (e\<lparr>now := nxt, pending := rest\<rparr>)"
  using assms
proof (induction pre arbitrary: e us saw)
  case Nil
  let ?e' = "e\<lparr>now := nxt, pending := rest\<rparr>"
  obtain d where c: "poll False (states (now e) eid) (mono (now e)) us saw = Continue us' saw' d"
    using Nil.prems(2) by (auto split: tick.splits)
  have s: "suspend s e = Some (Ret (), s, ?e')"
    using Nil.prems by (intro suspend_quiet) auto
  show ?case
    using Nil.prems c s by (subst wait_loop.simps) (simp add: sleep_def)
next
  case (Cons a pre)
  let ?e' = "e\<lparr>now := a, pending := pre @ nxt # rest\<rparr>"
  obtain u1 s1 d where
      c: "poll False (states (now e) eid) (mono (now e)) us saw = Continue u1 s1 d"
    and r: "replay eid u1 s1 (a # pre) = Some (us', saw')"
    using Cons.prems(2) by (auto split: tick.splits)
  have s: "suspend s e = Some (Ret (), s, ?e')"
    using Cons.prems by (intro suspend_quiet) auto
  have step: "wait_loop eid T us saw s e = wait_loop eid T u1 s1 s ?e'"
    using Cons.prems c s by (subst wait_loop.simps) (simp add: sleep_def)
  have "wait_loop eid T u1 s1 s ?e'
          = wait_loop eid T us' saw' s (?e'\<lparr>now := nxt, pending := rest\<rparr>)"
    using Cons.prems r by (intro Cons.IH) auto
  with step show ?case by simp
qed

lemma waiter_lost:
  assumes "pending e = pre @ first # ms @ m # rest"
      and "map_option fst (replay eid None False pre) = Some None"
      and "\<forall>x \<in> set (first # ms @ [m]). lost x eid"
      and "\<forall>x \<in> set (pre @ first # ms @ [m]).
             intr x = Quiet \<and> mono x < mono (now e) + DEFAULT_UPDATE_TIMEOUT"
      and "\<not> cancelled s"
      and "\<forall>x \<in> set ms. mono x - mono first \<le> MAX_UNAVAILABLE_DURATION"
      and "mono m - mono first > MAX_UNAVAILABLE_DURATION"
  shows "wait_for_completion eid s e
           = Some (Ret (False, Some (lost_reason m eid (\<exists>x \<in> set pre. progressing x eid))),
                   s, e\<lparr>now := m, pending := rest\<rparr>)"
proof (cases pre)
  case Nil
  let ?T = "mono (now e) + DEFAULT_UPDATE_TIMEOUT"
  let ?e1 = "e\<lparr>now := first, pending := ms @ m # rest\<rparr>"
  have s: "suspend s e = Some (Ret (), s, ?e1)"
    using assms Nil by (intro suspend_quiet) auto
  have "wait_loop eid ?T None False s ?e1
          = Some (Ret (False, Some (lost_reason m eid False)), s, ?e1\<lparr>now := m, pending := rest\<rparr>)"
    using assms Nil
    by (intro wait_loop_lost [where ms = ms and ?t0.0 = "mono first"])
       (auto simp: MAX_UNAVAILABLE_DURATION_def)
  with s Nil show ?thesis
    by (simp add: wait_for_completion_def sleep_def and_then_def Let_def)
next
  case (Cons p pre')
  let ?T = "mono (now e) + DEFAULT_UPDATE_TIMEOUT"
  let ?saw = "\<exists>x \<in> set pre. progressing x eid"
  let ?e1 = "e\<lparr>now := p, pending := pre' @ first # ms @ m # rest\<rparr>"
  let ?e2 = "?e1\<lparr>now := first, pending := ms @ m # rest\<rparr>"
  obtain saw' where r: "replay eid None False pre = Some (None, saw')"
    using assms(2) by auto
  from replay_saw [OF r] have saw': "saw' = ?saw" by simp
  have s: "suspend s e = Some (Ret (), s, ?e1)"
    using assms Cons by (intro suspend_quiet) auto
  have a: "wait_loop eid ?T None False s ?e1 = wait_loop eid ?T None ?saw s ?e2"
    using assms(1,4,5) Cons r [unfolded saw']
    by (intro wait_loop_replay) auto
  have b: "wait_loop eid ?T None ?saw s ?e2
             = Some (Ret (False, Some (lost_reason m eid ?saw)), s, ?e2\<lparr>now := m, pending := rest\<rparr>)"
    using assms(1,3,4,5,6,7) Cons
    by (intro wait_loop_lost [where ms = ms and ?t0.0 = "mono first"])
       (auto simp: MAX_UNAVAILABLE_DURATION_def)
  from s a b Cons show ?thesis
    by (simp add: wait_for_completion_def sleep_def and_then_def Let_def)
qed

text \<open>
  From the readings to the loop variables: when no poll of \<open>pre\<close> finds the target
  settled and every outage is brief, no poll of \<open>pre\<close> returns; \<open>saw_in_progress\<close> then
  says whether one of them was progressing, and \<open>unavailable_since\<close> is unset exactly
  when the last poll found the target available (or there was none).
\<close>

lemma replay_append:
  "replay eid us saw (xs @ ys)
     = (case replay eid us saw xs of None \<Rightarrow> None | Some (u, w) \<Rightarrow> replay eid u w ys)"
  by (induction xs arbitrary: us saw) (simp_all split: tick.splits)

lemma poll_available:
  assumes "\<not> lost m eid" and "\<not> settled m eid"
  shows "\<exists>d. poll False (states m eid) (mono m) us saw
           = Continue None (saw \<or> progressing m eid) d"
  using assms
  by (auto simp: poll_def lost_def settled_def progressing_def Let_def split: option.splits)

lemma lost_not_progressing: "lost m eid \<Longrightarrow> \<not> progressing m eid"
  by (auto simp: lost_def progressing_def split: option.splits)

lemma brief_outages_butlast:
  assumes "brief_outages eid (pre @ [x])"
  shows "brief_outages eid pre"
  unfolding brief_outages_def
proof (intro ballI impI)
  fix ys
  assume "ys \<in> set (sublists pre)"
    and h: "ys \<noteq> [] \<and> (\<forall>y \<in> set ys. lost y eid)"
  then obtain ps ss where "pre = ps @ ys @ ss" by (auto simp: sublist_def)
  then have "pre @ [x] = ps @ ys @ (ss @ [x])" by simp
  then have "sublist ys (pre @ [x])" unfolding sublist_def by blast
  then have "ys \<in> set (sublists (pre @ [x]))" by simp
  with assms h show "mono (last ys) - mono (hd ys) \<le> MAX_UNAVAILABLE_DURATION"
    unfolding brief_outages_def by blast
qed

lemma replay_readings:
  assumes "\<forall>x \<in> set pre. \<not> settled x eid" and "brief_outages eid pre"
  shows "\<exists>us. replay eid None False pre = Some (us, \<exists>x \<in> set pre. progressing x eid)
           \<and> (case us of
                 None \<Rightarrow> pre = [] \<or> \<not> lost (last pre) eid
               | Some t0 \<Rightarrow>
                   \<exists>xs ys. pre = xs @ ys \<and> ys \<noteq> [] \<and> (\<forall>x \<in> set ys. lost x eid)
                            \<and> t0 = mono (hd ys))"
  using assms
proof (induction pre rule: rev_induct)
  case Nil
  show ?case by simp
next
  case (snoc x pre)
  let ?saw = "\<exists>y \<in> set pre. progressing y eid"
  from snoc.prems have "\<forall>y \<in> set pre. \<not> settled y eid" by simp
  moreover from snoc.prems(2) have "brief_outages eid pre" by (rule brief_outages_butlast)
  ultimately obtain us where
    r: "replay eid None False pre = Some (us, ?saw)"
    and inv: "case us of
                None \<Rightarrow> pre = [] \<or> \<not> lost (last pre) eid
              | Some t0 \<Rightarrow>
                  \<exists>xs ys. pre = xs @ ys \<and> ys \<noteq> [] \<and> (\<forall>y \<in> set ys. lost y eid)
                           \<and> t0 = mono (hd ys)"
    using snoc.IH by blast
  have step: "replay eid None False (pre @ [x])
                = (case poll False (states x eid) (mono x) us ?saw of
                     Return ok reason \<Rightarrow> None
                   | Continue us' saw' d \<Rightarrow> Some (us', saw'))"
    by (simp add: replay_append r split: tick.splits)
  show ?case
  proof (cases "lost x eid")
    case False
    from snoc.prems(1) have "\<not> settled x eid" by simp
    from poll_available [OF False this, of us ?saw] obtain d where
      "poll False (states x eid) (mono x) us ?saw = Continue None (?saw \<or> progressing x eid) d"
      by blast
    with step False show ?thesis by (auto simp: disj_commute)
  next
    case True
    note np = lost_not_progressing [OF True]
    show ?thesis
    proof (cases us)
      case None
      have "poll False (states x eid) (mono x) None ?saw = Continue (Some (mono x)) ?saw 10"
        using poll_lost_continue [OF True, of None ?saw] by simp
      with step None have "replay eid None False (pre @ [x]) = Some (Some (mono x), ?saw)"
        by simp
      moreover have "\<exists>xs ys. pre @ [x] = xs @ ys \<and> ys \<noteq> [] \<and> (\<forall>y \<in> set ys. lost y eid)
                       \<and> mono x = mono (hd ys)"
        using True by (intro exI [of _ pre] exI [of _ "[x]"]) simp
      ultimately show ?thesis using np by auto
    next
      case (Some t0)
      with inv obtain xs ys where
        d: "pre = xs @ ys" "ys \<noteq> []" "\<forall>y \<in> set ys. lost y eid" "t0 = mono (hd ys)"
        by auto
      have "sublist (ys @ [x]) (pre @ [x])"
        unfolding d(1) by (metis append.assoc sublist_appendI append_Nil2)
      moreover have "\<forall>y \<in> set (ys @ [x]). lost y eid" using d(3) True by simp
      moreover have "ys @ [x] \<noteq> []" by simp
      moreover note snoc.prems(2) [unfolded brief_outages_def]
      ultimately have "mono (last (ys @ [x])) - mono (hd (ys @ [x])) \<le> MAX_UNAVAILABLE_DURATION"
        by (metis in_set_sublists)
      with d(2,4) have "mono x - t0 \<le> MAX_UNAVAILABLE_DURATION" by simp
      then have "poll False (states x eid) (mono x) (Some t0) ?saw = Continue (Some t0) ?saw 10"
        using poll_lost_continue [OF True, of "Some t0" ?saw] by simp
      with step Some have "replay eid None False (pre @ [x]) = Some (Some t0, ?saw)"
        by simp
      moreover have "\<exists>xs' ys'. pre @ [x] = xs' @ ys' \<and> ys' \<noteq> [] \<and> (\<forall>y \<in> set ys'. lost y eid)
                       \<and> t0 = mono (hd ys')"
        using d True by (intro exI [of _ xs] exI [of _ "ys @ [x]"]) simp
      ultimately show ?thesis using np by auto
    qed
  qed
qed

lemma replay_last_available:
  assumes "\<forall>x \<in> set pre. \<not> settled x eid" and "brief_outages eid pre"
      and "pre = [] \<or> \<not> lost (last pre) eid"
  shows "replay eid None False pre = Some (None, \<exists>x \<in> set pre. progressing x eid)"
proof -
  from replay_readings [OF assms(1,2)] obtain us where
    r: "replay eid None False pre = Some (us, \<exists>x \<in> set pre. progressing x eid)"
    and inv: "case us of
                None \<Rightarrow> pre = [] \<or> \<not> lost (last pre) eid
              | Some t0 \<Rightarrow>
                  \<exists>xs ys. pre = xs @ ys \<and> ys \<noteq> [] \<and> (\<forall>x \<in> set ys. lost x eid)
                           \<and> t0 = mono (hd ys)"
    by blast
  have "us = None"
  proof (cases us)
    case None
    then show ?thesis .
  next
    case (Some t0)
    with inv obtain xs ys where d: "pre = xs @ ys" "ys \<noteq> []" "\<forall>x \<in> set ys. lost x eid"
      by auto
    then have "pre \<noteq> []" "lost (last pre) eid" by simp_all
    with assms(3) show ?thesis by simp
  qed
  with r show ?thesis by simp
qed

text \<open>
  C3, as the code has it. After its first sleep the waiter makes the polls \<open>pre\<close>
  (possibly none): none of them finds the target settled, every outage among them is
  brief, and the last of them finds the target available. From \<open>first\<close> on every poll
  finds the target missing or unavailable. No cancellation arrives and the overall
  deadline is not reached. At the first poll \<open>m\<close> that is more than
  \<open>MAX_UNAVAILABLE_DURATION\<close> seconds later than \<open>first\<close> the waiter returns failure,
  and the reason depends on the reading at \<open>m\<close>: a missing state record gives "Device
  disappeared and did not come back", whether or not progress was seen before; an
  \<open>unavailable\<close> state gives "Device went offline during update and did not recover"
  if an in-progress reading was seen before, and "Device became unavailable" if none
  was.
\<close>

theorem lost_target_fails_by_last_reading:
  assumes "pending e = pre @ first # ms @ m # rest"
      and "\<forall>x \<in> set pre. \<not> settled x eid"
      and "brief_outages eid pre"
      and "pre = [] \<or> \<not> lost (last pre) eid"
      and "\<forall>x \<in> set (first # ms @ [m]). lost x eid"
      and "\<forall>x \<in> set (pre @ first # ms @ [m]).
             intr x = Quiet \<and> mono x < mono (now e) + DEFAULT_UPDATE_TIMEOUT"
      and "\<not> cancelled s"
      and "\<forall>x \<in> set ms. mono x - mono first \<le> MAX_UNAVAILABLE_DURATION"
      and "mono m - mono first > MAX_UNAVAILABLE_DURATION"
  shows "wait_for_completion eid s e
           = Some (Ret (False,
                     Some (case states m eid of
                             None \<Rightarrow> ''Device disappeared and did not come back''
                           | Some h \<Rightarrow>
                               if \<exists>x \<in> set pre. progressing x eid
                               then ''Device went offline during update and did not recover''
                               else ''Device became unavailable'')),
                   s, e\<lparr>now := m, pending := rest\<rparr>)"
proof -
  have "map_option fst (replay eid None False pre) = Some None"
    using replay_last_available [OF assms(2,3,4)] by simp
  from waiter_lost [OF assms(1) this assms(5-9)] show ?thesis
    by (simp add: lost_reason_def)
qed

lemma lost_after_progress_run:
  assumes "\<forall>eid. lost (calm 0 reg) eid"
  shows "wait_for_completion ''update.a'' one_job (lost_after_progress reg)
     = Some (Ret (False, Some (lost_reason (calm 140 reg) ''update.a'' True)), one_job,
             (lost_after_progress reg)\<lparr>now := calm 140 reg, pending := []\<rparr>)"
proof -
  have l: "lost (calm t reg) ''update.a''" for t
    using assms by (simp add: lost_def calm_def)
  have "wait_for_completion ''update.a'' one_job (lost_after_progress reg)
     = Some (Ret (False, Some (lost_reason (calm 140 reg) ''update.a''
               (\<exists>x \<in> set [calm 5 (registered ''update.a'' (reading ''on'' True))].
                   progressing x ''update.a''))), one_job,
             (lost_after_progress reg)\<lparr>now := calm 140 reg, pending := []\<rparr>)"
    by (rule waiter_lost [where first = "calm 10 reg"
          and ms = "map (\<lambda>t. calm t reg) [20, 30, 40, 50, 60, 70, 80, 90, 100, 110, 120, 130]"])
       (simp_all add: lost_after_progress_def polls_10_to_140_def l [unfolded calm_def] poll_def Let_def
          registered_def reading_def calm_def DEFAULT_UPDATE_TIMEOUT_def
          MAX_UNAVAILABLE_DURATION_def one_job_def start_def init_orch_def)
  then show ?thesis
    by (simp add: progressing_def calm_def registered_def reading_def)
qed

text \<open>
  C3 as stated fails: with an in-progress reading at 5 s and the state record missing
  from 10 s to 140 s, the reason is the one for a missing target, not "Device went
  offline during update and did not recover".
\<close>

theorem missing_after_progress_counterexample:
  "progressing (calm 5 (registered ''update.a'' (reading ''on'' True))) ''update.a''
   \<and> wait_for_completion ''update.a'' one_job (lost_after_progress nothing_registered)
     = Some (Ret (False, Some ''Device disappeared and did not come back''), one_job,
             (lost_after_progress nothing_registered)
               \<lparr>now := calm 140 nothing_registered, pending := []\<rparr>)"
  using lost_after_progress_run [of nothing_registered]
  by (simp add: lost_def lost_reason_def calm_def nothing_registered_def progressing_def
        registered_def reading_def)

theorem lost_target_fails_by_last_reading_witness:
  "wait_for_completion ''update.a'' one_job
       (lost_after_progress (registered ''update.a'' (reading ''unavailable'' False)))
     = Some (Ret (False, Some ''Device went offline during update and did not recover''), one_job,
             (lost_after_progress (registered ''update.a'' (reading ''unavailable'' False)))
               \<lparr>now := calm 140 (registered ''update.a'' (reading ''unavailable'' False)),
                pending := []\<rparr>)"
proof -
  let ?reg = "registered ''update.a'' (reading ''unavailable'' False)"
  have "wait_for_completion ''update.a'' one_job (lost_after_progress ?reg)
     = Some (Ret (False,
               Some (case states (calm 140 ?reg) ''update.a'' of
                       None \<Rightarrow> ''Device disappeared and did not come back''
                     | Some h \<Rightarrow>
                         if \<exists>x \<in> set [calm 5 (registered ''update.a'' (reading ''on'' True))].
                              progressing x ''update.a''
                         then ''Device went offline during update and did not recover''
                         else ''Device became unavailable'')), one_job,
             (lost_after_progress ?reg)\<lparr>now := calm 140 ?reg, pending := []\<rparr>)"
    by (rule lost_target_fails_by_last_reading [where first = "calm 10 ?reg"
          and ms = "map (\<lambda>t. calm t ?reg) [20, 30, 40, 50, 60, 70, 80, 90, 100, 110, 120, 130]"])
       (simp_all add: lost_after_progress_def polls_10_to_140_def lost_def settled_def
          brief_outages_def registered_def reading_def calm_def DEFAULT_UPDATE_TIMEOUT_def
          MAX_UNAVAILABLE_DURATION_def one_job_def start_def init_orch_def)
  then show ?thesis
    by (simp add: progressing_def calm_def registered_def reading_def)
qed

section \<open>The run loop\<close>

lemma suspend_frame:
  assumes "suspend s e = Some (r, s', e')"
  shows "queue s' = queue s \<and> calls e' = calls e \<and> running s' = running s
         \<and> stop_addon_slug s' = stop_addon_slug s \<and> addon_was_running s' = addon_was_running s"
  using assms
  by (auto simp: suspend_def deliver_def cancel_def Let_def
           split: list.splits interrupt.splits option.splits if_splits)

lemma wait_loop_frame:
  "wait_loop eid T us saw s e = Some (r, s', e') \<Longrightarrow>
     queue s' = queue s \<and> calls e' = calls e \<and> running s' = running s
     \<and> stop_addon_slug s' = stop_addon_slug s \<and> addon_was_running s' = addon_was_running s"
proof (induction eid T us saw s e rule: wait_loop.induct)
  case (1 eid T us saw s e)
  show ?case
  proof (cases "mono (now e) < T")
    case False
    with "1.prems" show ?thesis
      by (subst (asm) wait_loop.simps) (auto split: if_splits)
  next
    case True
    show ?thesis
    proof (cases "poll (cancelled s) (states (now e) eid) (mono (now e)) us saw")
      case (Return ok reason)
      with True "1.prems" show ?thesis
        by (subst (asm) wait_loop.simps) auto
    next
      case (Continue us' saw' d)
      show ?thesis
      proof (cases "sleep d s e")
        case None
        with True Continue "1.prems" show ?thesis
          by (subst (asm) wait_loop.simps) auto
      next
        case (Some a)
        obtain r1 s1 e1 where a: "a = (r1, s1, e1)" by (cases a) auto
        from Some a have f: "queue s1 = queue s \<and> calls e1 = calls e \<and> running s1 = running s
            \<and> stop_addon_slug s1 = stop_addon_slug s \<and> addon_was_running s1 = addon_was_running s"
          using suspend_frame [of s e r1 s1 e1] by (simp add: sleep_def)
        show ?thesis
        proof (cases r1)
          case CancelledError
          with True Continue Some a f "1.prems" show ?thesis
            by (subst (asm) wait_loop.simps) auto
        next
          case (Ret u)
          with True Continue Some a "1.prems"
          have "wait_loop eid T us' saw' s1 e1 = Some (r, s', e')"
            by (subst (asm) wait_loop.simps) auto
          with "1.IH" [OF True Continue Some] a Ret f show ?thesis by auto
        qed
      qed
    qed
  qed
qed

lemma wait_for_completion_frame:
  assumes "wait_for_completion eid s e = Some (r, s', e')"
  shows "queue s' = queue s \<and> calls e' = calls e \<and> running s' = running s
         \<and> stop_addon_slug s' = stop_addon_slug s \<and> addon_was_running s' = addon_was_running s"
proof (cases "sleep 5 s e")
  case None
  with assms show ?thesis by (simp add: wait_for_completion_def and_then_def Let_def)
next
  case (Some a)
  obtain r1 s1 e1 where a: "a = (r1, s1, e1)" by (cases a) auto
  from Some a have f: "queue s1 = queue s \<and> calls e1 = calls e \<and> running s1 = running s
      \<and> stop_addon_slug s1 = stop_addon_slug s \<and> addon_was_running s1 = addon_was_running s"
    using suspend_frame [of s e r1 s1 e1] by (simp add: sleep_def)
  show ?thesis
  proof (cases r1)
    case CancelledError
    with assms Some a f show ?thesis
      by (auto simp: wait_for_completion_def and_then_def Let_def)
  next
    case (Ret u)
    with assms Some a
    have "wait_loop eid (mono (now e) + DEFAULT_UPDATE_TIMEOUT) None False s1 e1 = Some (r, s', e')"
      by (simp add: wait_for_completion_def and_then_def Let_def)
    from wait_loop_frame [OF this] f show ?thesis by simp
  qed
qed

lemma set_job_after:
  assumes "queue s2 = (queue s)[i := j1]" and "i < length (queue s)"
  shows "queue (set_job i f s2) = (queue s)[i := f j1]"
  using assms by (simp add: set_job_def)

lemma set_job_fields [simp]:
  "running (set_job i f s) = running s"
  "cancelled (set_job i f s) = cancelled s"
  "stop_addon_slug (set_job i f s) = stop_addon_slug s"
  "addon_was_running (set_job i f s) = addon_was_running s"
  "length (queue (set_job i f s)) = length (queue s)"
  by (simp_all add: set_job_def)

text \<open>What \<open>_update_single\<close> does to the queue and to the log, whatever way it ends.\<close>

lemma update_single_effect:
  assumes "update_single i s e = Some (r, s', e')" and "i < length (queue s)"
  shows "\<exists>j'. queue s' = (queue s)[i := j']
           \<and> entity_id j' = entity_id (queue s ! i)
           \<and> started_at j' = Some (wall (now e))
           \<and> finished_at j' \<noteq> None
           \<and> (status j' = Success \<or> status j' = Failed \<or> status j' = Skipped
                \<or> status j' = Cancelled)
           \<and> (r = CancelledError \<longrightarrow> status j' = Cancelled)"
    and "calls e' = calls e \<or> calls e' = calls e @ [Install (entity_id (queue s ! i))]"
    and "running s' = running s \<and> stop_addon_slug s' = stop_addon_slug s
         \<and> addon_was_running s' = addon_was_running s"
proof -
  let ?eid = "entity_id (queue s ! i)"
  let ?j1 = "(queue s ! i)\<lparr>status := Running, started_at := Some (wall (now e))\<rparr>"
  let ?s1 = "set_job i (\<lambda>j. j\<lparr>status := Running, started_at := Some (wall (now e))\<rparr>) s"
  let ?good = "\<lambda>j' r. entity_id j' = ?eid
           \<and> started_at j' = Some (wall (now e))
           \<and> finished_at j' \<noteq> None
           \<and> (status j' = Success \<or> status j' = Failed \<or> status j' = Skipped
                \<or> status j' = Cancelled)
           \<and> (r = CancelledError \<longrightarrow> status j' = Cancelled)"
  note U = assms(1) [unfolded update_single_def Let_def, symmetric]
  have q1: "queue ?s1 = (queue s)[i := ?j1]" by (simp add: set_job_def)
  have fin: "finished_at (stamp_finish t j) \<noteq> None" for t j
    by (simp add: stamp_finish_def split: option.splits)
  have keep: "entity_id (stamp_finish t j) = entity_id j"
    "started_at (stamp_finish t j) = started_at j"
    "status (stamp_finish t j) = status j" for t j
    by (simp_all add: stamp_finish_def)
  have all: "\<exists>j'. queue s' = (queue s)[i := j'] \<and> ?good j' r
     \<and> (calls e' = calls e \<or> calls e' = calls e @ [Install ?eid])
     \<and> (running s' = running s \<and> stop_addon_slug s' = stop_addon_slug s
         \<and> addon_was_running s' = addon_was_running s)"
  proof (cases "is_entity_available (now e) ?eid")
    case False
    let ?f = "\<lambda>j. stamp_finish (wall (now e))
                (j\<lparr>status := Skipped,
                   error := Some (''Device unavailable '' @ em_dash @ '' skipped''),
                   finished_at := Some (wall (now e))\<rparr>)"
    from U False have eq: "Some (r, s', e') = Some (Ret (), set_job i ?f ?s1, e)" by simp
    then have r: "r = Ret ()" and s': "s' = set_job i ?f ?s1" and e': "e' = e" by auto
    have "queue s' = (queue s)[i := ?f ?j1]"
      unfolding s' by (rule set_job_after [OF q1 assms(2)])
    moreover have "?good (?f ?j1) r" by (simp add: r fin keep)
    ultimately show ?thesis unfolding e' s' by (intro exI [of _ "?f ?j1"]) simp
  next
    case True
    show ?thesis
    proof (cases "suspend ?s1 (emit (Install ?eid) e)")
      case None
      with U True show ?thesis by simp
    next
      case (Some a)
      obtain r2 s2 e2 where a: "a = (r2, s2, e2)" by (cases a) auto
      note S = Some [unfolded a]
      from suspend_frame [OF S]
      have f2: "queue s2 = (queue s)[i := ?j1]" "calls e2 = calls e @ [Install ?eid]"
        "running s2 = running s" "stop_addon_slug s2 = stop_addon_slug s"
        "addon_was_running s2 = addon_was_running s"
        by (simp_all add: q1 emit_def)
      have wrap: "\<exists>j'. queue s' = (queue s)[i := j'] \<and> ?good j' r
          \<and> (calls e' = calls e \<or> calls e' = calls e @ [Install ?eid])
          \<and> (running s' = running s \<and> stop_addon_slug s' = stop_addon_slug s
              \<and> addon_was_running s' = addon_was_running s)"
        if eq: "Some (r, s', e') = Some (r0, set_job i f sk, ek)"
          and fk: "queue sk = (queue s)[i := ?j1]" "calls ek = calls e @ [Install ?eid]"
            "running sk = running s" "stop_addon_slug sk = stop_addon_slug s"
            "addon_was_running sk = addon_was_running s"
          and g: "?good (f ?j1) r0"
        for r0 f sk ek
      proof -
        from eq have r: "r = r0" and s': "s' = set_job i f sk" and e': "e' = ek" by auto
        have "queue s' = (queue s)[i := f ?j1]"
          unfolding s' by (rule set_job_after [OF fk(1) assms(2)])
        with g fk show ?thesis unfolding e' s' r by (intro exI [of _ "f ?j1"]) simp
      qed
      show ?thesis
      proof (cases r2)
        case CancelledError
        from U True S CancelledError
        have "Some (r, s', e') = Some (CancelledError, set_job i (mark_cancelled (wall (now e2))) s2, e2)" by simp
        then show ?thesis
          by (rule wrap [OF _ f2]) (simp add: mark_cancelled_def fin keep)
      next
        case (Ret u)
        show ?thesis
        proof (cases "install_error (now e2)")
          case (Some msg)
          from U True S Ret Some
          have "Some (r, s', e') = Some (Ret (), set_job i (\<lambda>j. stamp_finish (wall (now e2))
                    (j\<lparr>status := Failed, error := Some (install_failed msg),
                       finished_at := Some (wall (now e2))\<rparr>)) s2, e2)"
            by simp
          then show ?thesis
            by (rule wrap [OF _ f2]) (simp add: fin keep)
        next
          case None
          show ?thesis
          proof (cases "case states (now e2) ?eid of None \<Rightarrow> False | Some h \<Rightarrow> state h = ''off''")
            case off: True
            from U True S Ret None off
            have "Some (r, s', e') = Some (Ret (), set_job i (\<lambda>j. stamp_finish (wall (now e2))
                      (j\<lparr>status := Success\<rparr>)) s2, e2)"
              by simp
            then show ?thesis
              by (rule wrap [OF _ f2]) (simp add: fin keep)
          next
            case off: False
            show ?thesis
            proof (cases "wait_for_completion ?eid s2 e2")
              case W: None
              from U True S Ret None off W show ?thesis by simp
            next
              case W: (Some b)
              obtain r3 s3 e3 where b: "b = (r3, s3, e3)" by (cases b) auto
              note W' = W [unfolded b]
              from wait_for_completion_frame [OF W'] f2
              have f3: "queue s3 = (queue s)[i := ?j1]" "calls e3 = calls e @ [Install ?eid]"
                "running s3 = running s" "stop_addon_slug s3 = stop_addon_slug s"
                "addon_was_running s3 = addon_was_running s"
                by simp_all
              show ?thesis
              proof (cases r3)
                case CancelledError
                from U True S Ret None off W' CancelledError
                have "Some (r, s', e') = Some (CancelledError, set_job i (mark_cancelled (wall (now e3))) s3, e3)" by simp
                then show ?thesis
                  by (rule wrap [OF _ f3]) (simp add: mark_cancelled_def fin keep)
              next
                case R3: (Ret v)
                obtain success error_reason where v: "v = (success, error_reason)"
                  by (cases v) auto
                let ?f = "\<lambda>j. stamp_finish (wall (now e3))
                         (if cancelled s3 then
                            j\<lparr>status := Cancelled, error := Some ''Cancelled by user''\<rparr>
                          else if success then j\<lparr>status := Success\<rparr>
                          else
                            j\<lparr>status := Failed,
                              error := Some (case error_reason of
                                               None \<Rightarrow> ''Update failed''
                                             | Some r \<Rightarrow> if r = [] then ''Update failed'' else r)\<rparr>)"
                from U True S Ret None off W' R3 v
                have "Some (r, s', e') = Some (Ret (), set_job i ?f s3, e3)" by simp
                then show ?thesis
                  by (rule wrap [OF _ f3]) (simp add: fin keep)
              qed
            qed
          qed
        qed
      qed
    qed
  qed
  from all show "\<exists>j'. queue s' = (queue s)[i := j']
           \<and> entity_id j' = entity_id (queue s ! i)
           \<and> started_at j' = Some (wall (now e))
           \<and> finished_at j' \<noteq> None
           \<and> (status j' = Success \<or> status j' = Failed \<or> status j' = Skipped
                \<or> status j' = Cancelled)
           \<and> (r = CancelledError \<longrightarrow> status j' = Cancelled)" by blast
  from all show "calls e' = calls e \<or> calls e' = calls e @ [Install ?eid]" by blast
  from all show "running s' = running s \<and> stop_addon_slug s' = stop_addon_slug s
         \<and> addon_was_running s' = addon_was_running s" by blast
qed

lemma advances_refl: "advances s e s e"
  by (simp add: advances_def)

lemma advances_trans:
  "advances s e s1 e1 \<Longrightarrow> advances s1 e1 s2 e2 \<Longrightarrow> advances s e s2 e2"
  by (auto simp: advances_def)

lemma advances_same_queue:
  assumes "queue s' = queue s" and "calls e' = calls e \<or> (\<exists>c. calls e' = calls e @ [c] \<and> \<not> is_addon_call c)"
      and "running s' = running s" and "stop_addon_slug s' = stop_addon_slug s"
      and "addon_was_running s' = addon_was_running s"
  shows "advances s e s' e'"
  using assms by (auto simp: advances_def)

lemma advances_suspend:
  "suspend s e = Some (r, s', e') \<Longrightarrow> advances s e s' e'"
  by (drule suspend_frame) (simp add: advances_same_queue)

lemma advances_mark:
  "advances s e (set_job i (\<lambda>j. j\<lparr>status := Cancelled\<rparr>) (s\<lparr>current_index := k\<rparr>)) e"
proof -
  have "map entity_id ((queue s)[i := (queue s ! i)\<lparr>status := Cancelled\<rparr>]) = map entity_id (queue s)"
    by (cases "i < length (queue s)") (simp_all add: map_update list_update_same_conv list_update_beyond)
  moreover have "list_all unstarted_clean ((queue s)[i := (queue s ! i)\<lparr>status := Cancelled\<rparr>])"
    if "list_all unstarted_clean (queue s)"
  proof (cases "i < length (queue s)")
    case True
    with that have "unstarted_clean (queue s ! i)" by (simp add: list_all_length)
    then have "unstarted_clean ((queue s ! i)\<lparr>status := Cancelled\<rparr>)"
      by (simp add: unstarted_clean_def split: if_splits)
    with that show ?thesis
      by (auto simp: list_all_iff dest: set_update_subset_insert [THEN subsetD])
  next
    case False
    with that show ?thesis by (simp add: list_update_beyond)
  qed
  ultimately show ?thesis by (simp add: advances_def set_job_def)
qed

lemma advances_update_single:
  assumes "update_single i s e = Some (r, s', e')" and "i < length (queue s)"
  shows "advances s e s' e'"
proof -
  from update_single_effect(1) [OF assms] obtain j' where
    j': "queue s' = (queue s)[i := j']" "entity_id j' = entity_id (queue s ! i)"
        "started_at j' = Some (wall (now e))"
    by blast
  have "map entity_id (queue s') = map entity_id (queue s)"
    using j' assms(2) by (simp add: map_update list_update_same_conv)
  moreover have "list_all unstarted_clean (queue s')" if "list_all unstarted_clean (queue s)"
  proof -
    have "unstarted_clean j'" using j'(3) by (simp add: unstarted_clean_def)
    with that show ?thesis unfolding j'(1)
      by (auto simp: list_all_iff dest: set_update_subset_insert [THEN subsetD])
  qed
  moreover have "\<exists>more. calls e' = calls e @ more \<and> list_all (\<lambda>c. \<not> is_addon_call c) more"
    using update_single_effect(2) [OF assms] by auto
  ultimately show ?thesis
    using update_single_effect(3) [OF assms] j'(1) by (simp add: advances_def)
qed

lemma advances_emit:
  "\<not> is_addon_call c \<Longrightarrow> advances s e s (emit c e)"
  by (simp add: advances_def emit_def)

text \<open>One pass through the body of the loop, for a job whose turn comes with the flag not
  set and whose state machine returns.\<close>

lemma run_jobs_step:
  assumes "\<not> cancelled s"
      and "update_single i (s\<lparr>current_index := i\<rparr>) e = Some (Ret u, s1, e1)"
  shows "run_jobs (i # rest) s e =
           (let e2 = emit (Progress (results s1) (summary s1)) e1
            in if i < length (queue s1) - 1 \<and> \<not> cancelled s1 then
                 (case suspend s1 e2 of
                    None \<Rightarrow> None
                  | Some (CancelledError, s3, e3) \<Rightarrow> Some (CancelledError, s3, e3)
                  | Some (Ret v, s3, e3) \<Rightarrow> run_jobs rest s3 e3)
               else run_jobs rest s1 e2)"
  using assms by (simp add: Let_def)

lemma run_jobs_advances:
  assumes "run_jobs is s e = Some (r, s', e')" and "\<forall>i \<in> set is. i < length (queue s)"
  shows "advances s e s' e'"
  using assms
proof (induction "is" arbitrary: s e)
  case Nil
  then show ?case by (simp add: advances_refl)
next
  case (Cons i rest)
  let ?s0 = "s\<lparr>current_index := i\<rparr>"
  show ?case
  proof (cases "cancelled s")
    case True
    let ?s1 = "set_job i (\<lambda>j. j\<lparr>status := Cancelled\<rparr>) ?s0"
    from Cons.prems True have "run_jobs rest ?s1 e = Some (r, s', e')" by (simp add: Let_def)
    moreover from Cons.prems have "\<forall>k \<in> set rest. k < length (queue ?s1)" by simp
    ultimately have "advances ?s1 e s' e'" by (rule Cons.IH)
    with advances_mark [of s e i i] show ?thesis by (rule advances_trans)
  next
    case False
    show ?thesis
    proof (cases "update_single i ?s0 e")
      case None
      with Cons.prems False show ?thesis by (simp add: Let_def)
    next
      case (Some a)
      obtain r1 s1 e1 where a: "a = (r1, s1, e1)" by (cases a) auto
      note U = Some [unfolded a]
      from Cons.prems have i: "i < length (queue ?s0)" by simp
      have "advances ?s0 e s1 e1" using U i by (rule advances_update_single)
      then have a1: "advances s e s1 e1" by (simp add: advances_def)
      then have len: "length (queue s1) = length (queue s)" by (simp add: advances_def)
      show ?thesis
      proof (cases r1)
        case CancelledError
        with Cons.prems False U have "s' = s1" "e' = e1" by (auto simp: Let_def)
        with a1 show ?thesis by simp
      next
        case (Ret u)
        let ?e2 = "emit (Progress (results s1) (summary s1)) e1"
        have a2: "advances s e s1 ?e2"
          using a1 advances_emit [of "Progress (results s1) (summary s1)" s1 e1]
          by (rule advances_trans) simp
        note R = Cons.prems(1) [unfolded run_jobs_step [OF False U [unfolded Ret]] Let_def]
        show ?thesis
        proof (cases "i < length (queue s1) - 1 \<and> \<not> cancelled s1")
          case pause: True
          show ?thesis
          proof (cases "suspend s1 ?e2")
            case None
            with R pause show ?thesis by simp
          next
            case (Some b)
            obtain r3 s3 e3 where b: "b = (r3, s3, e3)" by (cases b) auto
            note S = Some [unfolded b]
            have a3: "advances s e s3 e3"
              using a2 advances_suspend [OF S] by (rule advances_trans)
            show ?thesis
            proof (cases r3)
              case CancelledError
              with R pause S have "s' = s3" "e' = e3" by auto
              with a3 show ?thesis by simp
            next
              case (Ret v)
              with R pause S have "run_jobs rest s3 e3 = Some (r, s', e')" by simp
              moreover from Cons.prems a3 have "\<forall>k \<in> set rest. k < length (queue s3)"
                by (simp add: advances_def)
              ultimately have "advances s3 e3 s' e'" by (rule Cons.IH)
              with a3 show ?thesis by (rule advances_trans)
            qed
          qed
        next
          case nopause: False
          with R have "run_jobs rest s1 ?e2 = Some (r, s', e')" by auto
          moreover from Cons.prems len have "\<forall>k \<in> set rest. k < length (queue s1)" by simp
          ultimately have "advances s1 ?e2 s' e'" by (rule Cons.IH)
          with a2 show ?thesis by (rule advances_trans)
        qed
      qed
    qed
  qed
qed

lemma run_jobs_after_cancel:
  assumes "cancelled s" and "run_jobs is s e = Some (r, s', e')"
  shows "r = Ret () \<and> e' = e"
  using assms
proof (induction "is" arbitrary: s)
  case Nil
  then show ?case by simp
next
  case (Cons i rest)
  let ?s1 = "set_job i (\<lambda>j. j\<lparr>status := Cancelled\<rparr>) (s\<lparr>current_index := i\<rparr>)"
  from Cons.prems have "run_jobs rest ?s1 e = Some (r, s', e')" by (simp add: Let_def)
  moreover have "cancelled ?s1" using Cons.prems by (simp add: set_job_def)
  ultimately show ?case using Cons.IH by blast
qed

lemma run_jobs_marks:
  assumes "cancelled s"
  shows "\<exists>s'. run_jobs js s e = Some (Ret (), s', e)
           \<and> length (queue s') = length (queue s)
           \<and> (\<forall>i < length (queue s).
                 queue s' ! i = (if i \<in> set js then (queue s ! i)\<lparr>status := Cancelled\<rparr>
                                 else queue s ! i))"
  using assms
proof (induction js arbitrary: s)
  case Nil
  then show ?case by simp
next
  case (Cons j rest)
  let ?s1 = "set_job j (\<lambda>x. x\<lparr>status := Cancelled\<rparr>) (s\<lparr>current_index := j\<rparr>)"
  have c1: "cancelled ?s1" using Cons.prems by simp
  from Cons.IH [OF c1] obtain s' where
    r: "run_jobs rest ?s1 e = Some (Ret (), s', e)"
    and l: "length (queue s') = length (queue ?s1)"
    and q: "\<forall>i < length (queue ?s1).
              queue s' ! i = (if i \<in> set rest then (queue ?s1 ! i)\<lparr>status := Cancelled\<rparr>
                              else queue ?s1 ! i)"
    by blast
  have "run_jobs (j # rest) s e = Some (Ret (), s', e)"
    using Cons.prems r by (simp add: Let_def)
  moreover have "length (queue s') = length (queue s)" using l by simp
  moreover have "\<forall>i < length (queue s).
      queue s' ! i = (if i \<in> set (j # rest) then (queue s ! i)\<lparr>status := Cancelled\<rparr>
                      else queue s ! i)"
  proof (intro allI impI)
    fix i assume i: "i < length (queue s)"
    then have "queue s' ! i = (if i \<in> set rest then (queue ?s1 ! i)\<lparr>status := Cancelled\<rparr>
                              else queue ?s1 ! i)"
      using q by simp
    then show "queue s' ! i = (if i \<in> set (j # rest) then (queue s ! i)\<lparr>status := Cancelled\<rparr>
                      else queue s ! i)"
      using i by (cases "i = j") (simp_all add: set_job_def)
  qed
  ultimately show ?case by blast
qed

lemma progress_then_later:
  assumes "run_jobs (i # rest) s e = Some (r, s', e')"
      and "\<forall>k \<in> set (i # rest). k < length (queue s)"
      and "\<not> cancelled s"
      and "update_single i (s\<lparr>current_index := i\<rparr>) e = Some (Ret u, s1, e1)"
  shows "\<exists>later. calls e' = calls e1 @ Progress (results s1) (summary s1) # later"
proof -
  let ?s0 = "s\<lparr>current_index := i\<rparr>"
  let ?e2 = "emit (Progress (results s1) (summary s1)) e1"
  from assms(2) have i: "i < length (queue ?s0)" by simp
  from update_single_effect(1) [OF assms(4) i] obtain j' where
    "queue s1 = (queue ?s0)[i := j']" by blast
  then have len: "length (queue s1) = length (queue s)" by simp
  note R = assms(1) [unfolded run_jobs_step [OF assms(3,4)] Let_def]
  show ?thesis
  proof (cases "i < length (queue s1) - 1 \<and> \<not> cancelled s1")
    case pause: True
    show ?thesis
    proof (cases "suspend s1 ?e2")
      case None
      with R pause show ?thesis by simp
    next
      case (Some b)
      obtain r3 s3 e3 where b: "b = (r3, s3, e3)" by (cases b) auto
      note S = Some [unfolded b]
      from suspend_frame [OF S]
      have f3: "calls e3 = calls e1 @ [Progress (results s1) (summary s1)]"
        "length (queue s3) = length (queue s)"
        by (simp_all add: emit_def len)
      show ?thesis
      proof (cases r3)
        case CancelledError
        with R pause S have "e' = e3" by auto
        with f3 show ?thesis by simp
      next
        case (Ret v)
        with R pause S have "run_jobs rest s3 e3 = Some (r, s', e')" by simp
        moreover from assms(2) f3 have "\<forall>k \<in> set rest. k < length (queue s3)" by simp
        ultimately have "advances s3 e3 s' e'" by (rule run_jobs_advances)
        with f3 show ?thesis by (auto simp: advances_def)
      qed
    qed
  next
    case nopause: False
    with R have "run_jobs rest s1 ?e2 = Some (r, s', e')" by auto
    moreover from assms(2) len have "\<forall>k \<in> set rest. k < length (queue s1)" by simp
    ultimately have "advances s1 ?e2 s' e'" by (rule run_jobs_advances)
    then show ?thesis by (auto simp: advances_def emit_def)
  qed
qed

text \<open>
  C2, as the code has it. Take one pass of the loop, for the job at position \<open>i\<close>.
  If the flag is set when the job's turn comes, the job is marked Cancelled and the loop
  goes on to the next position in the same environment: nothing is published and
  nothing is awaited, for this job and for all that follow, and the loop returns.
  Otherwise the job state machine runs. If \<open>CancelledError\<close> leaves it, the job is
  Cancelled and the error leaves the loop at once, with no progress event. If it
  returns, the job has a terminal status and the loop goes on (pause, next job) from
  the environment in which a progress event with the results and the summary of that
  moment has just been published; whenever the loop ends, that event is the entry of
  the log that follows the job's own.
\<close>

theorem progress_follows_each_run_job:
  assumes "\<forall>k \<in> set (i # rest). k < length (queue s)"
  shows "if cancelled s then
           run_jobs (i # rest) s e
             = run_jobs rest
                 (s\<lparr>current_index := i,
                    queue := (queue s)[i := (queue s ! i)\<lparr>status := Cancelled\<rparr>]\<rparr>) e
           \<and> (\<exists>s'. run_jobs (i # rest) s e = Some (Ret (), s', e)
                    \<and> status (queue s' ! i) = Cancelled)
         else (case update_single i (s\<lparr>current_index := i\<rparr>) e of
                 None \<Rightarrow> run_jobs (i # rest) s e = None
               | Some (CancelledError, s1, e1) \<Rightarrow>
                   status (queue s1 ! i) = Cancelled
                   \<and> run_jobs (i # rest) s e = Some (CancelledError, s1, e1)
               | Some (Ret u, s1, e1) \<Rightarrow>
                   (status (queue s1 ! i) = Success \<or> status (queue s1 ! i) = Failed
                    \<or> status (queue s1 ! i) = Skipped \<or> status (queue s1 ! i) = Cancelled)
                   \<and> run_jobs (i # rest) s e
                       = (if i < length (queue s1) - 1 \<and> \<not> cancelled s1
                          then and_then (suspend s1 (emit (Progress (results s1) (summary s1)) e1))
                                 (\<lambda>_ s3 e3. run_jobs rest s3 e3)
                          else run_jobs rest s1 (emit (Progress (results s1) (summary s1)) e1))
                   \<and> (\<forall>r s' e'. run_jobs (i # rest) s e = Some (r, s', e') \<longrightarrow>
                         (\<exists>later. calls e' = calls e1 @ Progress (results s1) (summary s1) # later)))"
proof (cases "cancelled s")
  case True
  from assms have i: "i < length (queue s)" by simp
  from run_jobs_marks [OF True, of "i # rest" e] i obtain s' where
    "run_jobs (i # rest) s e = Some (Ret (), s', e)"
    "queue s' ! i = (queue s ! i)\<lparr>status := Cancelled\<rparr>"
    by auto
  then have "\<exists>s'. run_jobs (i # rest) s e = Some (Ret (), s', e)
                 \<and> status (queue s' ! i) = Cancelled"
    by simp
  with True show ?thesis by (simp add: Let_def set_job_def)
next
  case False
  let ?s0 = "s\<lparr>current_index := i\<rparr>"
  show ?thesis
  proof (cases "update_single i ?s0 e")
    case None
    with False show ?thesis by (simp add: Let_def)
  next
    case (Some a)
    obtain r1 s1 e1 where a: "a = (r1, s1, e1)" by (cases a) auto
    note U = Some [unfolded a]
    from assms have i: "i < length (queue ?s0)" by simp
    from update_single_effect(1) [OF U i] obtain j' where
      j': "queue s1 = (queue ?s0)[i := j']"
          "status j' = Success \<or> status j' = Failed \<or> status j' = Skipped \<or> status j' = Cancelled"
          "r1 = CancelledError \<longrightarrow> status j' = Cancelled"
      by blast
    from j' i have st: "status (queue s1 ! i) = Success \<or> status (queue s1 ! i) = Failed
        \<or> status (queue s1 ! i) = Skipped \<or> status (queue s1 ! i) = Cancelled"
      and stc: "r1 = CancelledError \<longrightarrow> status (queue s1 ! i) = Cancelled"
      by simp_all
    show ?thesis
    proof (cases r1)
      case CancelledError
      with False U stc show ?thesis by (simp add: Let_def)
    next
      case (Ret u)
      note U' = U [unfolded Ret]
      have eq: "run_jobs (i # rest) s e
                  = (if i < length (queue s1) - 1 \<and> \<not> cancelled s1
                     then and_then (suspend s1 (emit (Progress (results s1) (summary s1)) e1))
                            (\<lambda>_ s3 e3. run_jobs rest s3 e3)
                     else run_jobs rest s1 (emit (Progress (results s1) (summary s1)) e1))"
        unfolding run_jobs_step [OF False U']
        by (simp add: Let_def and_then_def split: option.splits res.splits prod.splits)
      have later: "\<forall>r s' e'. run_jobs (i # rest) s e = Some (r, s', e') \<longrightarrow>
                     (\<exists>later. calls e' = calls e1 @ Progress (results s1) (summary s1) # later)"
        using progress_then_later [OF _ assms False U'] by blast
      from st eq later False U' show ?thesis by simp
    qed
  qed
qed

lemmas run_unfold =
  run_def run_body_def stop_addon_def restart_addon_def and_then_def suspend_def deliver_def
  sleep_def emit_def cancel_def update_single_def set_job_def stamp_finish_def mark_cancelled_def
  on_cancelled_def is_entity_available_def results_def summary_def row_of_def Let_def

lemmas scene_unfold =
  three_jobs_def cancel_in_pause_def start_def init_orch_def new_job_def calm_def
  nothing_registered_def skipped_row_def

lemma cooperative_cancel_run:
  "run three_jobs (cancel_in_pause FlagOnly)
     = Some (Ret (),
         \<lparr>queue = [\<lparr>entity_id = ''update.a'', status = Skipped, started_at = Some 0,
                     finished_at = Some 0,
                     error = Some (''Device unavailable '' @ em_dash @ '' skipped'')\<rparr>,
                   \<lparr>entity_id = ''update.b'', status = Cancelled, started_at = None,
                     finished_at = None, error = None\<rparr>,
                   \<lparr>entity_id = ''update.c'', status = Cancelled, started_at = None,
                     finished_at = None, error = None\<rparr>],
          running = False, cancelled = True, current_index = 2, task = Some TaskDone,
          stop_addon_slug = None, addon_was_running = False\<rparr>,
         \<lparr>now = (calm 1 nothing_registered)\<lparr>intr := FlagOnly\<rparr>, pending = [],
          calls = [Progress [skipped_row, (''update.b'', ''queued'', None, None, None),
                             (''update.c'', ''queued'', None, None, None)]
                            [(''skipped'', 1), (''queued'', 2)],
                   Finished [skipped_row, (''update.b'', ''cancelled'', None, None, None),
                             (''update.c'', ''cancelled'', None, None, None)]
                            [(''skipped'', 1), (''cancelled'', 2)]]\<rparr>)"
  by (simp add: run_unfold scene_unfold)

lemma forced_cancel_run:
  "run three_jobs (cancel_in_pause CancelCall)
     = Some (Ret (),
         \<lparr>queue = [\<lparr>entity_id = ''update.a'', status = Skipped, started_at = Some 0,
                     finished_at = Some 0,
                     error = Some (''Device unavailable '' @ em_dash @ '' skipped'')\<rparr>,
                   \<lparr>entity_id = ''update.b'', status = Cancelled, started_at = None,
                     finished_at = None, error = None\<rparr>,
                   \<lparr>entity_id = ''update.c'', status = Cancelled, started_at = None,
                     finished_at = None, error = None\<rparr>],
          running = False, cancelled = True, current_index = 0, task = Some TaskDone,
          stop_addon_slug = None, addon_was_running = False\<rparr>,
         \<lparr>now = (calm 1 nothing_registered)\<lparr>intr := CancelCall\<rparr>, pending = [],
          calls = [Progress [skipped_row, (''update.b'', ''queued'', None, None, None),
                             (''update.c'', ''queued'', None, None, None)]
                            [(''skipped'', 1), (''queued'', 2)],
                   Finished [skipped_row, (''update.b'', ''cancelled'', None, None, None),
                             (''update.c'', ''cancelled'', None, None, None)]
                            [(''skipped'', 1), (''cancelled'', 2)]]\<rparr>)"
  by (simp add: run_unfold scene_unfold)

text \<open>
  C2 as stated fails: three jobs, the first is skipped, cancellation arrives in the pause
  after it. On the cooperative path and on the forced path alike, the second and the
  third job end Cancelled and the log holds one progress event, published before either
  of them was marked, and then the finished event.
\<close>

theorem cancelled_jobs_get_no_progress_counterexample:
  "outcome (run three_jobs (cancel_in_pause FlagOnly)) = Some (Ret ())
   \<and> map status (final_queue (run three_jobs (cancel_in_pause FlagOnly)))
       = [Skipped, Cancelled, Cancelled]
   \<and> final_calls (run three_jobs (cancel_in_pause FlagOnly))
       = [Progress [skipped_row, (''update.b'', ''queued'', None, None, None),
                    (''update.c'', ''queued'', None, None, None)]
                   [(''skipped'', 1), (''queued'', 2)],
          Finished [skipped_row, (''update.b'', ''cancelled'', None, None, None),
                    (''update.c'', ''cancelled'', None, None, None)]
                   [(''skipped'', 1), (''cancelled'', 2)]]
   \<and> outcome (run three_jobs (cancel_in_pause CancelCall)) = Some (Ret ())
   \<and> map status (final_queue (run three_jobs (cancel_in_pause CancelCall)))
       = [Skipped, Cancelled, Cancelled]
   \<and> final_calls (run three_jobs (cancel_in_pause CancelCall))
       = [Progress [skipped_row, (''update.b'', ''queued'', None, None, None),
                    (''update.c'', ''queued'', None, None, None)]
                   [(''skipped'', 1), (''queued'', 2)],
          Finished [skipped_row, (''update.b'', ''cancelled'', None, None, None),
                    (''update.c'', ''cancelled'', None, None, None)]
                   [(''skipped'', 1), (''cancelled'', 2)]]"
  by (simp add: cooperative_cancel_run forced_cancel_run outcome_def final_queue_def
        final_calls_def)

lemma cooperative_cancel_jobs:
  "run_jobs [0, 1, 2] three_jobs (cancel_in_pause FlagOnly)
     = Some (Ret (),
         \<lparr>queue = [\<lparr>entity_id = ''update.a'', status = Skipped, started_at = Some 0,
                     finished_at = Some 0,
                     error = Some (''Device unavailable '' @ em_dash @ '' skipped'')\<rparr>,
                   \<lparr>entity_id = ''update.b'', status = Cancelled, started_at = None,
                     finished_at = None, error = None\<rparr>,
                   \<lparr>entity_id = ''update.c'', status = Cancelled, started_at = None,
                     finished_at = None, error = None\<rparr>],
          running = True, cancelled = True, current_index = 2, task = Some TaskPending,
          stop_addon_slug = None, addon_was_running = False\<rparr>,
         \<lparr>now = (calm 1 nothing_registered)\<lparr>intr := FlagOnly\<rparr>, pending = [],
          calls = [Progress [skipped_row, (''update.b'', ''queued'', None, None, None),
                             (''update.c'', ''queued'', None, None, None)]
                            [(''skipped'', 1), (''queued'', 2)]]\<rparr>)"
  by (simp add: run_unfold scene_unfold)

lemma first_job_skipped:
  "update_single 0 (three_jobs\<lparr>current_index := 0\<rparr>) (cancel_in_pause FlagOnly)
     = Some (Ret (),
         \<lparr>queue = [\<lparr>entity_id = ''update.a'', status = Skipped, started_at = Some 0,
                     finished_at = Some 0,
                     error = Some (''Device unavailable '' @ em_dash @ '' skipped'')\<rparr>,
                   \<lparr>entity_id = ''update.b'', status = Queued, started_at = None,
                     finished_at = None, error = None\<rparr>,
                   \<lparr>entity_id = ''update.c'', status = Queued, started_at = None,
                     finished_at = None, error = None\<rparr>],
          running = True, cancelled = False, current_index = 0, task = Some TaskPending,
          stop_addon_slug = None, addon_was_running = False\<rparr>,
         cancel_in_pause FlagOnly)"
  by (simp add: run_unfold scene_unfold)

theorem progress_follows_each_run_job_witness:
  "(\<exists>later. final_calls (run_jobs [0, 1, 2] three_jobs (cancel_in_pause FlagOnly))
         = Progress [skipped_row, (''update.b'', ''queued'', None, None, None),
                     (''update.c'', ''queued'', None, None, None)]
                    [(''skipped'', 1), (''queued'', 2)] # later)
   \<and> (\<exists>s'. run_jobs [1, 2] (three_jobs\<lparr>cancelled := True\<rparr>) (cancel_in_pause FlagOnly)
              = Some (Ret (), s', cancel_in_pause FlagOnly)
            \<and> status (queue s' ! 1) = Cancelled)"
proof -
  have B: "\<forall>k \<in> set [0, 1, 2]. k < length (queue three_jobs)"
    by (simp add: scene_unfold)
  have B': "\<forall>k \<in> set [1, 2]. k < length (queue (three_jobs\<lparr>cancelled := True\<rparr>))"
    by (simp add: scene_unfold)
  have C: "\<not> cancelled three_jobs" "cancelled (three_jobs\<lparr>cancelled := True\<rparr>)"
    by (simp_all add: scene_unfold)
  have F: "final_calls (run_jobs [0, 1, 2] three_jobs (cancel_in_pause FlagOnly))
      = [Progress [skipped_row, (''update.b'', ''queued'', None, None, None),
                   (''update.c'', ''queued'', None, None, None)]
                  [(''skipped'', 1), (''queued'', 2)]]"
    unfolding cooperative_cancel_jobs final_calls_def by simp
  note a = progress_follows_each_run_job [OF B, of "cancel_in_pause FlagOnly"]
  note b = progress_follows_each_run_job [OF B', of "cancel_in_pause FlagOnly"]
  from a C(1) have "\<exists>later. final_calls (run_jobs [0, 1, 2] three_jobs (cancel_in_pause FlagOnly))
         = Progress [skipped_row, (''update.b'', ''queued'', None, None, None),
                     (''update.c'', ''queued'', None, None, None)]
                    [(''skipped'', 1), (''queued'', 2)] # later"
    unfolding F by simp
  moreover from b [unfolded if_P [OF C(2)]]
  have "\<exists>s'. run_jobs [1, 2] (three_jobs\<lparr>cancelled := True\<rparr>) (cancel_in_pause FlagOnly)
              = Some (Ret (), s', cancel_in_pause FlagOnly)
            \<and> status (queue s' ! 1) = Cancelled"
    by (rule conjunct2)
  ultimately show ?thesis by blast
qed

lemma stop_addon_frame:
  assumes "stop_addon s e = Some (r, s', e')"
  shows "queue s' = queue s \<and> running s' = running s \<and> stop_addon_slug s' = stop_addon_slug s"
  using assms
  by (auto simp: stop_addon_def and_then_def sleep_def
           split: option.splits if_splits prod.splits res.splits
           dest!: suspend_frame)

lemma restart_addon_frame:
  assumes "restart_addon s e = Some (r, s', e')"
  shows "queue s' = queue s \<and> running s' = running s \<and> stop_addon_slug s' = stop_addon_slug s
         \<and> addon_was_running s' = addon_was_running s"
  using assms
  by (auto simp: restart_addon_def and_then_def
           split: option.splits if_splits prod.splits res.splits
           dest!: suspend_frame)

lemma run_jobs_append:
  "run_jobs (xs @ ys) s e = and_then (run_jobs xs s e) (\<lambda>_ s1 e1. run_jobs ys s1 e1)"
proof (induction xs arbitrary: s e)
  case Nil
  show ?case by (simp add: and_then_def)
next
  case (Cons i xs)
  show ?case
    by (simp add: Cons.IH Let_def and_then_def split: option.splits res.splits prod.splits)
qed

lemma run_jobs_untouched:
  assumes "run_jobs js s e = Some (r, s', e')"
      and "\<forall>j \<in> set js. j < length (queue s)" and "i \<notin> set js"
  shows "queue s' ! i = queue s ! i \<and> length (queue s') = length (queue s)"
  using assms
proof (induction js arbitrary: s e)
  case Nil
  then show ?case by simp
next
  case (Cons j rest)
  let ?s0 = "s\<lparr>current_index := j\<rparr>"
  from Cons.prems have ne: "i \<noteq> j" and jl: "j < length (queue s)" by auto
  show ?case
  proof (cases "cancelled s")
    case True
    let ?s1 = "set_job j (\<lambda>x. x\<lparr>status := Cancelled\<rparr>) ?s0"
    from Cons.prems True have "run_jobs rest ?s1 e = Some (r, s', e')" by (simp add: Let_def)
    moreover have "\<forall>k \<in> set rest. k < length (queue ?s1)" using Cons.prems by simp
    moreover have "i \<notin> set rest" using Cons.prems by simp
    ultimately have "queue s' ! i = queue ?s1 ! i \<and> length (queue s') = length (queue ?s1)"
      by (rule Cons.IH)
    with ne show ?thesis by (simp add: set_job_def)
  next
    case False
    show ?thesis
    proof (cases "update_single j ?s0 e")
      case None
      with Cons.prems False show ?thesis by (simp add: Let_def)
    next
      case (Some a)
      obtain r1 s1 e1 where a: "a = (r1, s1, e1)" by (cases a) auto
      note U = Some [unfolded a]
      from jl have "j < length (queue ?s0)" by simp
      from update_single_effect(1) [OF U this] obtain j' where
        "queue s1 = (queue ?s0)[j := j']" by blast
      with ne have q1: "queue s1 ! i = queue s ! i" "length (queue s1) = length (queue s)"
        by simp_all
      show ?thesis
      proof (cases r1)
        case CancelledError
        with Cons.prems False U have "s' = s1" by (auto simp: Let_def)
        with q1 show ?thesis by simp
      next
        case (Ret u)
        let ?e2 = "emit (Progress (results s1) (summary s1)) e1"
        note R = Cons.prems(1) [unfolded run_jobs_step [OF False U [unfolded Ret]] Let_def]
        have rest: "\<forall>k \<in> set rest. k < length (queue s1)" "i \<notin> set rest"
          using Cons.prems q1 by simp_all
        show ?thesis
        proof (cases "j < length (queue s1) - 1 \<and> \<not> cancelled s1")
          case pause: True
          show ?thesis
          proof (cases "suspend s1 ?e2")
            case None
            with R pause show ?thesis by simp
          next
            case (Some b)
            obtain r3 s3 e3 where b: "b = (r3, s3, e3)" by (cases b) auto
            note S = Some [unfolded b]
            from suspend_frame [OF S] have q3: "queue s3 = queue s1" by simp
            show ?thesis
            proof (cases r3)
              case CancelledError
              with R pause S have "s' = s3" by auto
              with q3 q1 show ?thesis by simp
            next
              case (Ret v)
              with R pause S have "run_jobs rest s3 e3 = Some (r, s', e')" by simp
              moreover from rest q3 have "\<forall>k \<in> set rest. k < length (queue s3)" by simp
              ultimately have "queue s' ! i = queue s3 ! i \<and> length (queue s') = length (queue s3)"
                using rest(2) by (intro Cons.IH)
              with q3 q1 show ?thesis by simp
            qed
          qed
        next
          case nopause: False
          with R have "run_jobs rest s1 ?e2 = Some (r, s', e')" by auto
          then have "queue s' ! i = queue s1 ! i \<and> length (queue s') = length (queue s1)"
            using rest by (intro Cons.IH)
          with q1 show ?thesis by simp
        qed
      qed
    qed
  qed
qed

text \<open>
  C9. A run is begun by \<open>start\<close> from an idle orchestrator and comes to an end. Look at
  the \<open>try\<close> block when it has dealt with the add-on and with the jobs before position
  \<open>k\<close>: either \<open>CancelledError\<close> has left it there (the forced path, which the handler
  takes up), or the flag is set (the cooperative path, which the loop check takes up).
  Then every job from position \<open>k\<close> on has not started, being still as \<open>start\<close>
  created it, and at the end of the run it is that job with only its status changed, to
  Cancelled: its \<open>started_at\<close>, \<open>finished_at\<close> and \<open>error\<close> are \<open>None\<close>.
\<close>

theorem cancelled_before_start_keeps_fields:
  assumes "\<not> running s0"
      and "run (snd (start s0 entity_ids slug)) e = Some (r, s', e')"
      and "and_then (stop_addon (snd (start s0 entity_ids slug)) e)
             (\<lambda>_ s1 e1. run_jobs [0..<k] s1 e1) = Some (res, sk, ek)"
      and "res = CancelledError \<or> cancelled sk"
      and "k \<le> i" and "i < length entity_ids"
  shows "queue sk ! i = new_job (entity_ids ! i)
         \<and> queue s' ! i = (new_job (entity_ids ! i))\<lparr>status := Cancelled\<rparr>"
proof -
  let ?s = "snd (start s0 entity_ids slug)"
  let ?n = "length entity_ids"
  from assms(1) have q0: "queue ?s = map new_job entity_ids" by (simp add: start_def)
  have split: "[0..<?n] = [0..<k] @ [k..<?n]"
    using assms(5,6) by (metis le_add_diff_inverse less_imp_le_nat less_le_trans upt_add_eq_append zero_le le_less_trans order.strict_implies_order)
  have body: "run_body ?s e
                = and_then (Some (res, sk, ek)) (\<lambda>_ s1 e1. run_jobs [k..<?n] s1 e1)
              \<and> queue sk ! i = new_job (entity_ids ! i) \<and> length (queue sk) = ?n"
  proof (cases "stop_addon ?s e")
    case None
    with assms(3) show ?thesis by (simp add: and_then_def)
  next
    case (Some a)
    obtain ra sa ea where a: "a = (ra, sa, ea)" by (cases a) auto
    note A = Some [unfolded a]
    from stop_addon_frame [OF A] q0 have qa: "queue sa = map new_job entity_ids" by simp
    show ?thesis
    proof (cases ra)
      case CancelledError
      with assms(3) A have "res = CancelledError" "sk = sa" "ek = ea"
        by (simp_all add: and_then_def)
      with A CancelledError qa assms(6) show ?thesis
        by (simp add: run_body_def and_then_def)
    next
      case (Ret u)
      with assms(3) A have J: "run_jobs [0..<k] sa ea = Some (res, sk, ek)"
        by (simp add: and_then_def)
      have "queue sk ! i = queue sa ! i \<and> length (queue sk) = length (queue sa)"
        using J assms(5,6) qa by (intro run_jobs_untouched) auto
      moreover have "run_body ?s e = run_jobs ([0..<k] @ [k..<?n]) sa ea"
        using A Ret qa split by (simp add: run_body_def and_then_def)
      ultimately show ?thesis
        using J qa assms(6) by (simp add: run_jobs_append)
    qed
  qed
  obtain r1 s1 e1 where B: "run_body ?s e = Some (r1, s1, e1)"
    using assms(2) by (cases "run_body ?s e") (auto simp: run_def)
  let ?s2 = "case r1 of
               CancelledError \<Rightarrow> s1\<lparr>queue := map (on_cancelled (wall (now e1))) (queue s1)\<rparr>
             | Ret u \<Rightarrow> s1"
  have marked: "queue ?s2 ! i = (new_job (entity_ids ! i))\<lparr>status := Cancelled\<rparr>"
  proof (cases "res = CancelledError")
    case True
    with body B have "r1 = CancelledError" "s1 = sk" by (simp_all add: and_then_def)
    with body assms(6) show ?thesis
      by (simp add: on_cancelled_def new_job_def)
  next
    case False
    with assms(4) have c: "cancelled sk" and res: "res = Ret ()" by (cases res; simp)+
    from run_jobs_marks [OF c, of "[k..<?n]" ek] obtain s'' where
      m: "run_jobs [k..<?n] sk ek = Some (Ret (), s'', ek)"
         "\<forall>j < length (queue sk).
            queue s'' ! j = (if j \<in> set [k..<?n] then (queue sk ! j)\<lparr>status := Cancelled\<rparr>
                             else queue sk ! j)"
      by blast
    from body B res m(1) have "r1 = Ret ()" "s1 = s''" by (simp_all add: and_then_def)
    with m(2) body assms(5,6) show ?thesis by simp
  qed
  obtain r3 s3 e3 where C: "restart_addon ?s2 e1 = Some (r3, s3, e3)"
    using assms(2) B by (cases "restart_addon ?s2 e1") (auto simp: run_def Let_def)
  from restart_addon_frame [OF C] have "queue s3 = queue ?s2" by simp
  moreover from assms(2) B C have "queue s' = queue s3"
    by (cases r3) (auto simp: run_def Let_def)
  ultimately show ?thesis using marked body by simp
qed

theorem cancelled_before_start_keeps_fields_witness:
  "final_queue (run three_jobs (cancel_in_pause FlagOnly)) ! 1
     = (new_job ''update.b'')\<lparr>status := Cancelled\<rparr>
   \<and> final_queue (run three_jobs (cancel_in_pause CancelCall)) ! 2
     = (new_job ''update.c'')\<lparr>status := Cancelled\<rparr>"
proof -
  let ?ids = "[''update.a'', ''update.b'', ''update.c'']"
  have idle: "\<not> running init_orch" by (simp add: init_orch_def)
  have "\<exists>sk ek. and_then (stop_addon (snd (start init_orch ?ids None)) (cancel_in_pause FlagOnly))
                    (\<lambda>_ s1 e1. run_jobs [0..<1] s1 e1) = Some (Ret (), sk, ek)
                 \<and> cancelled sk"
    by (simp add: run_unfold scene_unfold)
  then obtain sk ek where
    p: "and_then (stop_addon (snd (start init_orch ?ids None)) (cancel_in_pause FlagOnly))
          (\<lambda>_ s1 e1. run_jobs [0..<1] s1 e1) = Some (Ret (), sk, ek)"
    and c: "cancelled sk"
    by blast
  have "\<exists>sk' ek'. and_then (stop_addon (snd (start init_orch ?ids None)) (cancel_in_pause CancelCall))
                    (\<lambda>_ s1 e1. run_jobs [0..<1] s1 e1) = Some (CancelledError, sk', ek')"
    by (simp add: run_unfold scene_unfold)
  then obtain sk' ek' where
    p': "and_then (stop_addon (snd (start init_orch ?ids None)) (cancel_in_pause CancelCall))
           (\<lambda>_ s1 e1. run_jobs [0..<1] s1 e1) = Some (CancelledError, sk', ek')"
    by blast
  note a = cancelled_before_start_keeps_fields
             [OF idle cooperative_cancel_run [unfolded three_jobs_def] p disjI2 [OF c], of 1]
  note b = cancelled_before_start_keeps_fields
             [OF idle forced_cancel_run [unfolded three_jobs_def] p' disjI1 [OF refl], of 2]
  from a b show ?thesis
    by (simp add: final_queue_def cooperative_cancel_run forced_cancel_run)
qed

section \<open>The add-on around the batch\<close>

lemmas addon_scene = with_addon_def restart_interrupted_def start_def init_orch_def new_job_def
  calm_def registered_def reading_def

lemma empty_batch_no_addon:
  assumes "\<not> running s"
  shows "run (snd (start s [] None)) e
           = Some (Ret (),
                   (snd (start s [] None))\<lparr>running := False, task := Some TaskDone\<rparr>,
                   emit (Finished [] []) e)"
  using assms
  by (simp add: start_def run_def run_body_def stop_addon_def restart_addon_def and_then_def
        results_def summary_def Let_def)

lemma undisturbed_5:
  assumes "undisturbed 5 e"
  obtains m1 m2 m3 m4 m5 rest where "pending e = m1 # m2 # m3 # m4 # m5 # rest"
    and "intr m1 = Quiet" "intr m2 = Quiet" "intr m3 = Quiet" "intr m4 = Quiet" "intr m5 = Quiet"
proof -
  from assms have len: "5 \<le> length (pending e)" by (simp add: undisturbed_def)
  then obtain m1 r1 where 1: "pending e = m1 # r1" by (cases "pending e") auto
  with len obtain m2 r2 where 2: "r1 = m2 # r2" by (cases r1) auto
  with 1 len obtain m3 r3 where 3: "r2 = m3 # r3" by (cases r2) auto
  with 1 2 len obtain m4 r4 where 4: "r3 = m4 # r4" by (cases r3) auto
  with 1 2 3 len obtain m5 r5 where 5: "r4 = m5 # r5" by (cases r4) auto
  from 1 2 3 4 5 have p: "pending e = m1 # m2 # m3 # m4 # m5 # r5" by simp
  with assms have "intr m1 = Quiet" "intr m2 = Quiet" "intr m3 = Quiet" "intr m4 = Quiet"
    "intr m5 = Quiet"
    by (simp_all add: undisturbed_def)
  with p show ?thesis by (rule that)
qed

lemma empty_batch_undisturbed:
  assumes "\<not> running s" and "undisturbed 5 e"
  shows "\<exists>s' e'. run (snd (start s [] slug)) e = Some (Ret (), s', e')
           \<and> \<not> running s' \<and> queue s' = []
           \<and> filter (\<lambda>c. \<not> is_addon_call c) (calls e')
               = filter (\<lambda>c. \<not> is_addon_call c) (calls e) @ [Finished [] []]"
proof -
  from assms(2) obtain m1 m2 m3 m4 m5 rest where p: "pending e = m1 # m2 # m3 # m4 # m5 # rest"
    and q: "intr m1 = Quiet" "intr m2 = Quiet" "intr m3 = Quiet" "intr m4 = Quiet" "intr m5 = Quiet"
    by (rule undisturbed_5)
  show ?thesis
  proof (cases slug)
    case None
    with empty_batch_no_addon [OF assms(1), of e] show ?thesis
      by (simp add: emit_def start_def assms(1))
  next
    case (Some sl)
    with assms(1) p q show ?thesis
      by (cases "sl = []"; cases "info_state m1 = Some ''started''"; cases "api_ok m2")
         (simp_all add: start_def run_def run_body_def stop_addon_def restart_addon_def
            and_then_def suspend_def deliver_def sleep_def emit_def results_def summary_def
            Let_def)
  qed
qed

text \<open>
  From an idle orchestrator \<open>start\<close> with the empty target list succeeds and marks the
  run Running with an empty queue. With no add-on id, or when the add-on port answers
  and nothing reaches the task during the run, the run processes no job, adds to the log
  (apart from calls to the add-on port) one finished event with empty results and an
  empty summary, and leaves the orchestrator idle.
\<close>

lemma empty_batch_finishes_when_undisturbed:
  assumes "\<not> running s" and "slug = None \<or> undisturbed 5 e"
  shows "fst (start s [] slug) = Inr ()
         \<and> running (snd (start s [] slug)) \<and> queue (snd (start s [] slug)) = []
         \<and> outcome (run (snd (start s [] slug)) e) = Some (Ret ())
         \<and> map_option running (final_orch (run (snd (start s [] slug)) e)) = Some False
         \<and> final_queue (run (snd (start s [] slug)) e) = []
         \<and> filter (\<lambda>c. \<not> is_addon_call c) (final_calls (run (snd (start s [] slug)) e))
             = filter (\<lambda>c. \<not> is_addon_call c) (calls e) @ [Finished [] []]"
proof -
  have st: "fst (start s [] slug) = Inr ()"
    "running (snd (start s [] slug))" "queue (snd (start s [] slug)) = []"
    using assms(1) by (simp_all add: start_def)
  have "\<exists>s' e'. run (snd (start s [] slug)) e = Some (Ret (), s', e')
           \<and> \<not> running s' \<and> queue s' = []
           \<and> filter (\<lambda>c. \<not> is_addon_call c) (calls e')
               = filter (\<lambda>c. \<not> is_addon_call c) (calls e) @ [Finished [] []]"
  proof (cases "slug = None")
    case True
    with empty_batch_no_addon [OF assms(1), of e] show ?thesis
      by (simp add: emit_def start_def assms(1))
  next
    case False
    with assms(2) have "undisturbed 5 e" by simp
    with assms(1) show ?thesis by (rule empty_batch_undisturbed)
  qed
  then obtain s' e' where "run (snd (start s [] slug)) e = Some (Ret (), s', e')"
    "\<not> running s'" "queue s' = []"
    "filter (\<lambda>c. \<not> is_addon_call c) (calls e')
       = filter (\<lambda>c. \<not> is_addon_call c) (calls e) @ [Finished [] []]"
    by blast
  with st show ?thesis
    by (simp add: outcome_def final_orch_def final_queue_def final_calls_def)
qed

lemma restart_interrupted_run:
  "run with_addon (restart_interrupted CancelCall)
     = Some (CancelledError,
         \<lparr>queue = [\<lparr>entity_id = ''update.a'', status = Success, started_at = Some 7,
                     finished_at = Some 60, error = None\<rparr>],
          running = True, cancelled = True, current_index = 0, task = Some TaskDone,
          stop_addon_slug = Some ''a0d7b954_vscode'', addon_was_running = True\<rparr>,
         \<lparr>now = (calm 61 (registered ''update.a'' (reading ''off'' False)))\<lparr>intr := CancelCall\<rparr>,
          pending = [calm 62 (registered ''update.a'' (reading ''off'' False))],
          calls = [GetAddonInfo ''a0d7b954_vscode'', StopAddon ''a0d7b954_vscode'',
                   Install ''update.a'',
                   Progress [(''update.a'', ''success'', Some 7, Some 60, None)]
                            [(''success'', 1)],
                   GetAddonInfo ''a0d7b954_vscode'']\<rparr>)"
  by (simp add: run_unfold addon_scene)

lemma restart_quiet_run:
  "run with_addon (restart_interrupted Quiet)
     = Some (Ret (),
         \<lparr>queue = [\<lparr>entity_id = ''update.a'', status = Success, started_at = Some 7,
                     finished_at = Some 60, error = None\<rparr>],
          running = False, cancelled = False, current_index = 0, task = Some TaskDone,
          stop_addon_slug = Some ''a0d7b954_vscode'', addon_was_running = True\<rparr>,
         \<lparr>now = calm 62 (registered ''update.a'' (reading ''off'' False)),
          pending = [],
          calls = [GetAddonInfo ''a0d7b954_vscode'', StopAddon ''a0d7b954_vscode'',
                   Install ''update.a'',
                   Progress [(''update.a'', ''success'', Some 7, Some 60, None)]
                            [(''success'', 1)],
                   GetAddonInfo ''a0d7b954_vscode'', StartAddon ''a0d7b954_vscode'',
                   Finished [(''update.a'', ''success'', Some 7, Some 60, None)]
                            [(''success'', 1)]]\<rparr>)"
  by (simp add: run_unfold addon_scene)

lemma empty_batch_cleanup_cancelled_run:
  "run (snd (start init_orch [] (Some ''a0d7b954_vscode''))) (cleanup_interrupted CancelCall)
     = Some (CancelledError,
         \<lparr>queue = [], running = True, cancelled = True, current_index = 0,
          task = Some TaskDone,
          stop_addon_slug = Some ''a0d7b954_vscode'', addon_was_running = True\<rparr>,
         \<lparr>now = (calm 8 nothing_registered)\<lparr>intr := CancelCall\<rparr>,
          pending = [calm 9 nothing_registered],
          calls = [GetAddonInfo ''a0d7b954_vscode'', StopAddon ''a0d7b954_vscode'',
                   GetAddonInfo ''a0d7b954_vscode'']\<rparr>)"
  by (simp add: run_unfold cleanup_interrupted_def start_def init_orch_def calm_def
        nothing_registered_def)

lemma empty_batch_cleanup_quiet_run:
  "run (snd (start init_orch [] (Some ''a0d7b954_vscode''))) (cleanup_interrupted Quiet)
     = Some (Ret (),
         \<lparr>queue = [], running = False, cancelled = False, current_index = 0,
          task = Some TaskDone,
          stop_addon_slug = Some ''a0d7b954_vscode'', addon_was_running = True\<rparr>,
         \<lparr>now = calm 9 nothing_registered,
          pending = [],
          calls = [GetAddonInfo ''a0d7b954_vscode'', StopAddon ''a0d7b954_vscode'',
                   GetAddonInfo ''a0d7b954_vscode'', StartAddon ''a0d7b954_vscode'',
                   Finished [] []]\<rparr>)"
  by (simp add: run_unfold cleanup_interrupted_def start_def init_orch_def calm_def
        nothing_registered_def)

text \<open>
  C10 fails on the code. The target list is empty, the add-on is reported as started and
  the stop request succeeds. When \<open>cancel()\<close> is called while the \<open>finally\<close> clause
  awaits the add-on info, \<open>CancelledError\<close> leaves the clause before the run flag is
  cleared and before the finished event is fired: the orchestrator stays Running and the
  log holds no finished event. The same run with nothing arriving at that await fires
  one finished event with empty results and an empty summary and ends idle.
\<close>

theorem empty_batch_cancelled_in_cleanup_stays_running:
  "fst (start init_orch [] (Some ''a0d7b954_vscode'')) = Inr ()
   \<and> running (snd (start init_orch [] (Some ''a0d7b954_vscode'')))
   \<and> outcome (run (snd (start init_orch [] (Some ''a0d7b954_vscode'')))
                 (cleanup_interrupted CancelCall)) = Some CancelledError
   \<and> map_option running
         (final_orch (run (snd (start init_orch [] (Some ''a0d7b954_vscode'')))
                        (cleanup_interrupted CancelCall))) = Some True
   \<and> final_calls (run (snd (start init_orch [] (Some ''a0d7b954_vscode'')))
                     (cleanup_interrupted CancelCall))
       = [GetAddonInfo ''a0d7b954_vscode'', StopAddon ''a0d7b954_vscode'',
          GetAddonInfo ''a0d7b954_vscode'']
   \<and> outcome (run (snd (start init_orch [] (Some ''a0d7b954_vscode'')))
                 (cleanup_interrupted Quiet)) = Some (Ret ())
   \<and> map_option running
         (final_orch (run (snd (start init_orch [] (Some ''a0d7b954_vscode'')))
                        (cleanup_interrupted Quiet))) = Some False
   \<and> final_calls (run (snd (start init_orch [] (Some ''a0d7b954_vscode'')))
                     (cleanup_interrupted Quiet))
       = [GetAddonInfo ''a0d7b954_vscode'', StopAddon ''a0d7b954_vscode'',
          GetAddonInfo ''a0d7b954_vscode'', StartAddon ''a0d7b954_vscode'', Finished [] []]"
  unfolding empty_batch_cleanup_cancelled_run empty_batch_cleanup_quiet_run
  by (simp add: outcome_def final_orch_def final_calls_def start_def init_orch_def)

lemma suspend_calm:
  assumes "pending e = m # ms" and "calm_arrival m"
  shows "\<exists>s'. suspend s e = Some (Ret (), s', e\<lparr>now := m, pending := ms\<rparr>)
           \<and> queue s' = queue s \<and> stop_addon_slug s' = stop_addon_slug s
           \<and> addon_was_running s' = addon_was_running s \<and> running s' = running s"
  using assms by (auto simp: suspend_def deliver_def calm_arrival_def)

lemma count_no_addon:
  assumes "list_all (\<lambda>c. \<not> is_addon_call c) cs" and "is_addon_call x"
  shows "count_list cs x = 0"
  using assms by (induction cs) auto

text \<open>The pre-hook when the add-on is reported as started and the stop request returns.\<close>

lemma stop_addon_started:
  assumes "stop_addon_slug s = Some slug" and "slug \<noteq> []"
      and "pending e = m1 # m2 # ms"
      and "calm_arrival m1" and "info_state m1 = Some ''started''" and "calm_arrival m2"
      and "stop_addon s e = Some (r, s', e')"
  shows "calls e' = calls e @ [GetAddonInfo slug, StopAddon slug]
         \<and> addon_was_running s' = api_ok m2
         \<and> stop_addon_slug s' = Some slug \<and> queue s' = queue s"
proof -
  let ?e1 = "emit (GetAddonInfo slug) e"
  from suspend_calm [of ?e1 m1 "m2 # ms" s] assms(3,4)
  obtain s1 where s1: "suspend s ?e1 = Some (Ret (), s1, ?e1\<lparr>now := m1, pending := m2 # ms\<rparr>)"
    "queue s1 = queue s" "stop_addon_slug s1 = stop_addon_slug s"
    by (auto simp: emit_def)
  let ?e1' = "?e1\<lparr>now := m1, pending := m2 # ms\<rparr>"
  let ?e2 = "emit (StopAddon slug) ?e1'"
  from suspend_calm [of ?e2 m2 ms "s1\<lparr>addon_was_running := True\<rparr>"] assms(6)
  obtain s2 where s2: "suspend (s1\<lparr>addon_was_running := True\<rparr>) ?e2
        = Some (Ret (), s2, ?e2\<lparr>now := m2, pending := ms\<rparr>)"
    "queue s2 = queue s1" "stop_addon_slug s2 = stop_addon_slug s1" "addon_was_running s2"
    by (auto simp: emit_def)
  let ?e2' = "?e2\<lparr>now := m2, pending := ms\<rparr>"
  have c2: "calls ?e2' = calls e @ [GetAddonInfo slug, StopAddon slug]"
    by (simp add: emit_def)
  from assms(1,2,5,7) s1 s2
  have R: "Some (r, s', e') = (if api_ok m2 then sleep 5 s2 ?e2'
                               else Some (Ret (), s2\<lparr>addon_was_running := False\<rparr>, ?e2'))"
    by (simp add: stop_addon_def and_then_def)
  show ?thesis
  proof (cases "api_ok m2")
    case True
    with R have "suspend s2 ?e2' = Some (r, s', e')" by (simp add: sleep_def)
    from suspend_frame [OF this] c2 s1 s2 assms(1) True show ?thesis by simp
  next
    case False
    with R have "s' = s2\<lparr>addon_was_running := False\<rparr>" "e' = ?e2'" by simp_all
    with c2 s1 s2 assms(1) False show ?thesis by simp
  qed
qed

text \<open>The post-hook: nothing without the memory; with it, the info query and the start
  request, the second only when the first returned.\<close>

lemma restart_addon_calls:
  assumes "stop_addon_slug s = Some slug" and "slug \<noteq> []"
      and "restart_addon s e = Some (r, s', e')"
  shows "if addon_was_running s
         then (calls e' = calls e @ [GetAddonInfo slug, StartAddon slug]
               \<or> (r = CancelledError \<and> calls e' = calls e @ [GetAddonInfo slug]))
         else r = Ret () \<and> calls e' = calls e"
proof (cases "addon_was_running s")
  case False
  with assms show ?thesis by (auto simp: restart_addon_def)
next
  case True
  let ?e1 = "emit (GetAddonInfo slug) e"
  show ?thesis
  proof (cases "suspend s ?e1")
    case None
    with assms True show ?thesis by (simp add: restart_addon_def and_then_def)
  next
    case (Some a)
    obtain r1 s1 e1 where a: "a = (r1, s1, e1)" by (cases a) auto
    note S = Some [unfolded a]
    from suspend_frame [OF S] have c1: "calls e1 = calls e @ [GetAddonInfo slug]"
      by (simp add: emit_def)
    show ?thesis
    proof (cases r1)
      case CancelledError
      with assms True S have "r = CancelledError" "e' = e1"
        by (auto simp: restart_addon_def and_then_def)
      with c1 True show ?thesis by simp
    next
      case (Ret u)
      with assms True S have "suspend s1 (emit (StartAddon slug) e1) = Some (r, s', e')"
        by (simp add: restart_addon_def and_then_def)
      from suspend_frame [OF this] c1 True show ?thesis by (simp add: emit_def)
    qed
  qed
qed

text \<open>
  What holds of C4 in every run: when the add-on is reported as started and the stop
  request returns, the run makes one stop call; after a failed stop it makes no start
  call; after a successful stop it makes at most one start call, and exactly one
  whenever the run reaches its end through the \<open>finally\<close> clause (it returns, and the
  finished event is fired).
\<close>

lemma addon_stopped_once_and_restarted_when_run_returns:
  assumes "stop_addon_slug s = Some slug" and "slug \<noteq> []"
      and "pending e = m1 # m2 # ms"
      and "calm_arrival m1" and "info_state m1 = Some ''started''" and "calm_arrival m2"
      and "run s e = Some (r, s', e')"
  shows "\<exists>added. calls e' = calls e @ added
           \<and> count_list added (StopAddon slug) = 1
           \<and> (if api_ok m2
               then count_list added (StartAddon slug) \<le> 1
                    \<and> (r = Ret () \<longrightarrow> count_list added (StartAddon slug) = 1)
               else count_list added (StartAddon slug) = 0)"
proof -
  from assms(7) obtain r1 s1 e1 where B: "run_body s e = Some (r1, s1, e1)"
    by (cases "run_body s e") (auto simp: run_def)
  then obtain ra sa ea where A: "stop_addon s e = Some (ra, sa, ea)"
    by (cases "stop_addon s e") (auto simp: run_body_def and_then_def)
  from stop_addon_started [OF assms(1-6) A]
  have a: "calls ea = calls e @ [GetAddonInfo slug, StopAddon slug]"
    "addon_was_running sa = api_ok m2" "stop_addon_slug sa = Some slug"
    by simp_all
  have "\<exists>more. calls e1 = calls ea @ more \<and> list_all (\<lambda>c. \<not> is_addon_call c) more
          \<and> addon_was_running s1 = api_ok m2 \<and> stop_addon_slug s1 = Some slug"
  proof (cases ra)
    case CancelledError
    with A B a show ?thesis by (auto simp: run_body_def and_then_def)
  next
    case (Ret u)
    with A B have "run_jobs [0..<length (queue sa)] sa ea = Some (r1, s1, e1)"
      by (simp add: run_body_def and_then_def)
    then have "advances sa ea s1 e1" by (rule run_jobs_advances) simp
    with a show ?thesis by (auto simp: advances_def)
  qed
  then obtain more where m: "calls e1 = calls ea @ more"
    "list_all (\<lambda>c. \<not> is_addon_call c) more"
    "addon_was_running s1 = api_ok m2" "stop_addon_slug s1 = Some slug"
    by blast
  let ?s2 = "case r1 of
               CancelledError \<Rightarrow> s1\<lparr>queue := map (on_cancelled (wall (now e1))) (queue s1)\<rparr>
             | Ret u \<Rightarrow> s1"
  have s2: "addon_was_running ?s2 = api_ok m2" "stop_addon_slug ?s2 = Some slug"
    using m(3,4) by (cases r1; simp)+
  from assms(7) B obtain r3 s3 e3 where C: "restart_addon ?s2 e1 = Some (r3, s3, e3)"
    by (cases "restart_addon ?s2 e1") (auto simp: run_def Let_def)
  from assms(7) B C have fin: "r = r3"
    "calls e' = calls e3 \<or> (r3 = Ret () \<and> (\<exists>rs sm. calls e' = calls e3 @ [Finished rs sm]))"
    by (cases r3; auto simp: run_def Let_def emit_def)+
  note R = restart_addon_calls [OF s2(2) assms(2) C, unfolded s2(1)]
  have z: "count_list more (StopAddon slug) = 0" "count_list more (StartAddon slug) = 0"
    using m(2) by (simp_all add: count_no_addon)
  show ?thesis
  proof (cases "api_ok m2")
    case False
    with R have "r3 = Ret ()" "calls e3 = calls e1" by simp_all
    with fin a m z False show ?thesis by auto
  next
    case True
    with R have "calls e3 = calls e1 @ [GetAddonInfo slug, StartAddon slug]
                 \<or> (r3 = CancelledError \<and> calls e3 = calls e1 @ [GetAddonInfo slug])"
      by simp
    with fin a m z True show ?thesis by auto
  qed
qed

text \<open>
  C4 fails on the code. The add-on is reported as started and the stop request
  succeeds; the one job installs and ends Success. When \<open>cancel()\<close> is called while the
  \<open>finally\<close> clause awaits the add-on info, \<open>CancelledError\<close> leaves the clause: the
  add-on is never started again, the run flag stays set and no finished event is
  fired. The same run with nothing arriving at that await starts the add-on once.
\<close>

theorem restart_skipped_when_cleanup_is_cancelled:
  "outcome (run with_addon (restart_interrupted CancelCall)) = Some CancelledError
   \<and> map_option running (final_orch (run with_addon (restart_interrupted CancelCall))) = Some True
   \<and> final_calls (run with_addon (restart_interrupted CancelCall))
       = [GetAddonInfo ''a0d7b954_vscode'', StopAddon ''a0d7b954_vscode'',
          Install ''update.a'',
          Progress [(''update.a'', ''success'', Some 7, Some 60, None)] [(''success'', 1)],
          GetAddonInfo ''a0d7b954_vscode'']
   \<and> outcome (run with_addon (restart_interrupted Quiet)) = Some (Ret ())
   \<and> map_option running (final_orch (run with_addon (restart_interrupted Quiet))) = Some False
   \<and> final_calls (run with_addon (restart_interrupted Quiet))
       = [GetAddonInfo ''a0d7b954_vscode'', StopAddon ''a0d7b954_vscode'',
          Install ''update.a'',
          Progress [(''update.a'', ''success'', Some 7, Some 60, None)] [(''success'', 1)],
          GetAddonInfo ''a0d7b954_vscode'', StartAddon ''a0d7b954_vscode'',
          Finished [(''update.a'', ''success'', Some 7, Some 60, None)] [(''success'', 1)]]"
  by (simp add: restart_interrupted_run restart_quiet_run outcome_def final_orch_def
        final_calls_def)

end
